theory Spec2Isabelle
  imports Complex_Main "HOL-Library.Signed_Division"
begin

section \<open>The raster container\<close>

text \<open>
  \<^verbatim>\<open>StepFilter.cpp\<close> works on a \<^verbatim>\<open>grid_map::GridMap\<close>, a library type. The model keeps
  what the filter uses of it:
  \<^item> a cell index is a pair of integers (\<^verbatim>\<open>Eigen::Array2i\<close>);
  \<^item> \<open>cells\<close> is the sequence of indices a \<^verbatim>\<open>GridMapIterator\<close> yields;
  \<^item> \<open>getPosition\<close> maps an index to the position of its centre;
  \<^item> \<open>circleIterator c r\<close> is the sequence of indices a \<^verbatim>\<open>CircleIterator\<close> with
    centre \<open>c\<close> and radius \<open>r\<close> yields;
  \<^item> \<open>layerData\<close> is the dictionary from layer names to layers (\<^verbatim>\<open>data_\<close>).
  A cell holds a \<^verbatim>\<open>float\<close>; \<^verbatim>\<open>isValid(index, layer)\<close> is \<^verbatim>\<open>isfinite(at(layer, index))\<close>. The
  model reads a finite value as the real number it is and every other value (NaN, the value
  of a fresh layer, and an infinity) as \<open>None\<close>.
\<close>

type_synonym index = "int \<times> int"
type_synonym position = "real \<times> real"
type_synonym layer = "index \<Rightarrow> real option"

record gridmap =
  cells :: "index list"
  getPosition :: "index \<Rightarrow> position"
  circleIterator :: "position \<Rightarrow> real \<Rightarrow> index list"
  layerData :: "string \<rightharpoonup> layer"

text \<open>
  \<^verbatim>\<open>at\<close> throws \<^verbatim>\<open>std::out_of_range\<close> for a layer the map does not have; an integer
  division by zero has no defined result. Both are error values of the model.
\<close>

datatype error = OutOfRange string | DivisionByZero

text \<open>\<^verbatim>\<open>add(layer)\<close>: a layer of NaN under that name, replacing the data of a layer that exists.\<close>

definition add :: "gridmap \<Rightarrow> string \<Rightarrow> gridmap" where
  "add m l = m\<lparr>layerData := (layerData m)(l \<mapsto> (\<lambda>_. None))\<rparr>"

text \<open>\<^verbatim>\<open>erase(layer)\<close>: the layer is removed from the dictionary.\<close>

definition erase :: "gridmap \<Rightarrow> string \<Rightarrow> gridmap" where
  "erase m l = m\<lparr>layerData := (layerData m)(l := None)\<rparr>"

text \<open>Reading \<^verbatim>\<open>at(layer, index)\<close>; \<open>Inr None\<close> is a value that \<^verbatim>\<open>isValid\<close> rejects.\<close>

definition at_layer :: "gridmap \<Rightarrow> string \<Rightarrow> index \<Rightarrow> error + real option" where
  "at_layer m l i = (case layerData m l of None \<Rightarrow> Inl (OutOfRange l) | Some d \<Rightarrow> Inr (d i))"

text \<open>
  The filter computes in \<^verbatim>\<open>double\<close> and assigns the result to a cell, which converts it to
  \<^verbatim>\<open>float\<close>: the nearest number with a significand of 24 bits and an exponent from -126 to 127
  (a multiple of \<^verbatim>\<open>2^-149\<close> below \<^verbatim>\<open>2^-126\<close>), the one with an even significand when two are
  equally near, and an infinity, which is not a valid cell, when that number would reach
  \<^verbatim>\<open>2^128\<close>. \<open>toFloat\<close> is this conversion, on the real number the \<^verbatim>\<open>double\<close> stands for.
\<close>

definition pow2 :: "int \<Rightarrow> real" where
  "pow2 k = (if 0 \<le> k then 2 ^ nat k else 1 / 2 ^ nat (- k))"

definition roundEven :: "real \<Rightarrow> int" where
  "roundEven q =
     (let n = \<lfloor>q\<rfloor>; d = q - real_of_int n in
      if d < 1 / 2 then n
      else if 1 / 2 < d then n + 1
      else if even n then n else n + 1)"

definition toFloat :: "real \<Rightarrow> real option" where
  "toFloat x =
     (if x = 0 then Some 0
      else
        (let e = max \<lfloor>log 2 \<bar>x\<bar>\<rfloor> (- 126);
             quantum = pow2 (e - 23);
             y = real_of_int (roundEven (x / quantum)) * quantum
         in if 2 ^ 128 \<le> \<bar>y\<bar> then None else Some y))"

text \<open>Writing \<^verbatim>\<open>at(layer, index) = v\<close> for a \<^verbatim>\<open>double\<close> \<open>v\<close>.\<close>

definition assign_at :: "gridmap \<Rightarrow> string \<Rightarrow> index \<Rightarrow> real \<Rightarrow> error + gridmap" where
  "assign_at m l i v =
     (case layerData m l of
        None \<Rightarrow> Inl (OutOfRange l)
      | Some d \<Rightarrow> Inr (m\<lparr>layerData := (layerData m)(l \<mapsto> d(i := toFloat v))\<rparr>))"

section \<open>The filter and its configuration\<close>

text \<open>
  The members of \<^verbatim>\<open>StepFilter\<close>: \<^verbatim>\<open>nCellCritical_\<close> is an \<^verbatim>\<open>int\<close>, the other numbers are
  \<^verbatim>\<open>double\<close>, and \<open>mapType\<close> is the member \<^verbatim>\<open>type_\<close>, the name of the output layer.
\<close>

record stepFilter =
  criticalValue :: real
  firstWindowRadius :: real
  secondWindowRadius :: real
  nCellCritical :: int
  mapType :: string

text \<open>The constructor's initial values.\<close>

definition StepFilter :: stepFilter where
  "StepFilter =
     \<lparr>criticalValue = 3 / 10, firstWindowRadius = 8 / 100, secondWindowRadius = 8 / 100,
      nCellCritical = 5, mapType = ''traversability_step''\<rparr>"

text \<open>
  The parameter source of \<^verbatim>\<open>filters::FilterBase\<close> is a dictionary of typed values.
  \<^verbatim>\<open>getParam(name, value)\<close> returns false, leaving \<open>value\<close> as it was, when the name is
  missing or its value has another type, and stores the parameter into \<open>value\<close> otherwise. The
  overload for \<^verbatim>\<open>double\<close> takes an integer parameter too.
\<close>

datatype param = ParamDouble real | ParamInt int | ParamString string

type_synonym params = "string \<rightharpoonup> param"

definition getParam_double :: "params \<Rightarrow> string \<Rightarrow> real option" where
  "getParam_double ps name =
     (case ps name of
        Some (ParamDouble d) \<Rightarrow> Some d
      | Some (ParamInt k) \<Rightarrow> Some (real_of_int k)
      | _ \<Rightarrow> None)"

definition getParam_int :: "params \<Rightarrow> string \<Rightarrow> int option" where
  "getParam_int ps name = (case ps name of Some (ParamInt k) \<Rightarrow> Some k | _ \<Rightarrow> None)"

definition getParam_string :: "params \<Rightarrow> string \<Rightarrow> string option" where
  "getParam_string ps name = (case ps name of Some (ParamString s) \<Rightarrow> Some s | _ \<Rightarrow> None)"

text \<open>
  \<^verbatim>\<open>configure\<close> reads each parameter into its member and checks it before it reads the next
  one. The result is the returned flag and the members after the call.
\<close>

definition configure :: "params \<Rightarrow> stepFilter \<Rightarrow> bool \<times> stepFilter" where
  "configure ps f =
     (case getParam_double ps ''critical_value'' of
        None \<Rightarrow> (False, f)
      | Some cv \<Rightarrow>
          let f1 = f\<lparr>criticalValue := cv\<rparr> in
          if criticalValue f1 < 0 then (False, f1)
          else
            (case getParam_double ps ''first_window_radius'' of
               None \<Rightarrow> (False, f1)
             | Some r1 \<Rightarrow>
                 let f2 = f1\<lparr>firstWindowRadius := r1\<rparr> in
                 if firstWindowRadius f2 < 0 then (False, f2)
                 else
                   (case getParam_double ps ''second_window_radius'' of
                      None \<Rightarrow> (False, f2)
                    | Some r2 \<Rightarrow>
                        let f3 = f2\<lparr>secondWindowRadius := r2\<rparr> in
                        if secondWindowRadius f3 < 0 then (False, f3)
                        else
                          (case getParam_int ps ''critical_cell_number'' of
                             None \<Rightarrow> (False, f3)
                           | Some n \<Rightarrow>
                               let f4 = f3\<lparr>nCellCritical := n\<rparr> in
                               if nCellCritical f4 \<le> 0 then (False, f4)
                               else
                                 (case getParam_string ps ''map_type'' of
                                    None \<Rightarrow> (False, f4)
                                  | Some t \<Rightarrow> (True, f4\<lparr>mapType := t\<rparr>))))))"

section \<open>The two passes of update\<close>

text \<open>
  The inner loop of the first pass, over the cells of the first window: \<open>height\<close> is the
  elevation of the centre cell, the last argument the running \<open>stepMax\<close>. (The loop also
  counts the cells of the window in a variable that nothing reads.) The source subtracts two
  \<^verbatim>\<open>float\<close> values in \<^verbatim>\<open>double\<close>, which rounds the difference to 53 bits when they are far
  apart; the model keeps the difference itself. Nothing the source does can tell the two
  apart: the rounding keeps the order of the differences and does not make one zero, and
  since 53 is more than twice 24, converting the rounded difference to \<^verbatim>\<open>float\<close> gives what
  converting the difference itself gives.
\<close>

fun firstWindowScan :: "gridmap \<Rightarrow> real \<Rightarrow> index list \<Rightarrow> real \<Rightarrow> error + real" where
  "firstWindowScan m height [] stepMax = Inr stepMax"
| "firstWindowScan m height (s # ss) stepMax =
     (case at_layer m ''elevation'' s of
        Inl e \<Rightarrow> Inl e
      | Inr None \<Rightarrow> firstWindowScan m height ss stepMax
      | Inr (Some el) \<Rightarrow>
          (let step = \<bar>height - el\<bar> in
           if step > stepMax then firstWindowScan m height ss step
           else firstWindowScan m height ss stepMax))"

text \<open>The first iteration through the map, over the indices still to visit.\<close>

fun firstIteration :: "stepFilter \<Rightarrow> index list \<Rightarrow> gridmap \<Rightarrow> error + gridmap" where
  "firstIteration f [] m = Inr m"
| "firstIteration f (i # is) m =
     (case at_layer m ''elevation'' i of
        Inl e \<Rightarrow> Inl e
      | Inr None \<Rightarrow> firstIteration f is m
      | Inr (Some height) \<Rightarrow>
          (case firstWindowScan m height
                  (circleIterator m (getPosition m i) (firstWindowRadius f)) 0 of
             Inl e \<Rightarrow> Inl e
           | Inr stepMax \<Rightarrow>
               if stepMax > 0 then
                 (case assign_at m ''step_height'' i stepMax of
                    Inl e \<Rightarrow> Inl e
                  | Inr m' \<Rightarrow> firstIteration f is m')
               else firstIteration f is m))"

text \<open>
  The inner loop of the second pass, over the cells of the second window. The state is
  \<open>(nCells, stepMax, isValid)\<close>. The counter is an \<^verbatim>\<open>int\<close> that grows by at most one for each
  cell of a window; it is an integer of the model, which is the same for windows of fewer than
  \<^verbatim>\<open>2^31\<close> cells.
\<close>

fun secondWindowScan ::
  "stepFilter \<Rightarrow> gridmap \<Rightarrow> index list \<Rightarrow> int \<times> real \<times> bool \<Rightarrow> error + (int \<times> real \<times> bool)" where
  "secondWindowScan f m [] acc = Inr acc"
| "secondWindowScan f m (s # ss) (nCells, stepMax, isValid) =
     (case at_layer m ''step_height'' s of
        Inl e \<Rightarrow> Inl e
      | Inr None \<Rightarrow> secondWindowScan f m ss (nCells, stepMax, isValid)
      | Inr (Some v) \<Rightarrow>
          if v > stepMax then
            (if v > criticalValue f then secondWindowScan f m ss (nCells + 1, v, True)
             else secondWindowScan f m ss (nCells, v, True))
          else secondWindowScan f m ss (nCells, stepMax, True))"

text \<open>
  The value written to the output layer: \<^verbatim>\<open>nCells / nCellCritical_\<close> is a division of two
  \<^verbatim>\<open>int\<close>s, which truncates towards zero, and its result is converted to \<^verbatim>\<open>double\<close>. The
  source divides by the critical value only when \<open>step\<close> is below it; with a critical cell
  number greater than zero \<open>step\<close> is not negative, so that the divisor is greater than zero.
  The model computes with the numbers themselves where the source computes in \<^verbatim>\<open>double\<close>. With a
  critical cell number greater than zero the two agree, since the value written is then 0 or
  1 (\<open>cost_zero_or_one\<close> below); with a critical cell number below zero, which \<open>configure\<close>
  rejects, the source may round or reach an infinity where the model does not, and no
  theorem below is about the values written then.
\<close>

definition dampedStep :: "stepFilter \<Rightarrow> int \<Rightarrow> real \<Rightarrow> real" where
  "dampedStep f nCells stepMax =
     min stepMax (real_of_int (nCells sdiv nCellCritical f) * stepMax)"

definition traversability :: "stepFilter \<Rightarrow> real \<Rightarrow> real" where
  "traversability f step =
     (if step < criticalValue f then 1 - step / criticalValue f else 0)"

text \<open>The second iteration through the map.\<close>

fun secondIteration :: "stepFilter \<Rightarrow> index list \<Rightarrow> gridmap \<Rightarrow> error + gridmap" where
  "secondIteration f [] m = Inr m"
| "secondIteration f (i # is) m =
     (case secondWindowScan f m
             (circleIterator m (getPosition m i) (secondWindowRadius f)) (0, 0, False) of
        Inl e \<Rightarrow> Inl e
      | Inr (nCells, stepMax, isValid) \<Rightarrow>
          if isValid then
            (if nCellCritical f = 0 then Inl DivisionByZero
             else
               (case assign_at m (mapType f) i
                       (traversability f (dampedStep f nCells stepMax)) of
                  Inl e \<Rightarrow> Inl e
                | Inr m' \<Rightarrow> secondIteration f is m'))
          else secondIteration f is m)"

text \<open>
  \<^verbatim>\<open>update\<close>: the input is copied, the two layers are added, the two passes run, and
  \<^verbatim>\<open>step_height\<close> is erased. \<open>Inr\<close> carries \<^verbatim>\<open>mapOut\<close> when the call returns (it returns true).
\<close>

definition addLayers :: "stepFilter \<Rightarrow> gridmap \<Rightarrow> gridmap" where
  "addLayers f mapIn = add (add mapIn (mapType f)) ''step_height''"

definition update :: "stepFilter \<Rightarrow> gridmap \<Rightarrow> error + gridmap" where
  "update f mapIn =
     (let mapOut = addLayers f mapIn in
      case firstIteration f (cells mapOut) mapOut of
        Inl e \<Rightarrow> Inl e
      | Inr m1 \<Rightarrow>
          (case secondIteration f (cells m1) m1 of
             Inl e \<Rightarrow> Inl e
           | Inr m2 \<Rightarrow> Inr (erase m2 ''step_height'')))"

text \<open>
  What a caller reads in the output layer of the map that \<open>update\<close> returns, at one cell
  (an error when \<open>update\<close> fails or the returned map has no layer of that name).
\<close>

definition outputAt :: "stepFilter \<Rightarrow> gridmap \<Rightarrow> index \<Rightarrow> error + real option" where
  "outputAt f mapIn c =
     (case update f mapIn of
        Inl e \<Rightarrow> Inl e
      | Inr mapOut \<Rightarrow> at_layer mapOut (mapType f) c)"

text \<open>The step height of a cell when the first pass of \<open>update\<close> has run.\<close>

definition stepHeightAt :: "stepFilter \<Rightarrow> gridmap \<Rightarrow> index \<Rightarrow> error + real option" where
  "stepHeightAt f mapIn c =
     (case firstIteration f (cells (addLayers f mapIn)) (addLayers f mapIn) of
        Inl e \<Rightarrow> Inl e
      | Inr m1 \<Rightarrow> at_layer m1 ''step_height'' c)"

section \<open>What the passes compute, in closed form\<close>

text \<open>
  The definitions of this section are not translations of the source: they say, without
  loops, what the claims about the passes say, and the theorems compare the loops with them.
\<close>

text \<open>The cells of the two windows of a cell.\<close>

definition firstWindow :: "stepFilter \<Rightarrow> gridmap \<Rightarrow> index \<Rightarrow> index list" where
  "firstWindow f m c = circleIterator m (getPosition m c) (firstWindowRadius f)"

definition secondWindow :: "stepFilter \<Rightarrow> gridmap \<Rightarrow> index \<Rightarrow> index list" where
  "secondWindow f m c = circleIterator m (getPosition m c) (secondWindowRadius f)"

text \<open>The distances in height from \<open>h\<close> to the valid elevations of a window.\<close>

definition windowSteps :: "layer \<Rightarrow> real \<Rightarrow> index list \<Rightarrow> real list" where
  "windowSteps el h ws = map (\<lambda>e. \<bar>h - e\<bar>) (List.map_filter el ws)"

text \<open>
  The first pass writes the step height of cell \<open>c\<close> with window \<open>ws\<close> when the elevation
  of \<open>c\<close> is valid and the largest of these distances is positive.
\<close>

definition stepFound :: "layer \<Rightarrow> index list \<Rightarrow> index \<Rightarrow> bool" where
  "stepFound el ws c =
     (case el c of
        None \<Rightarrow> False
      | Some h \<Rightarrow> windowSteps el h ws \<noteq> [] \<and> 0 < Max (set (windowSteps el h ws)))"

text \<open>
  The step height of cell \<open>c\<close> with window \<open>ws\<close>: the largest of these distances as a
  \<^verbatim>\<open>float\<close> when it is positive, and no value otherwise or when the elevation of \<open>c\<close> is
  invalid.
\<close>

definition stepHeightSpec :: "layer \<Rightarrow> index list \<Rightarrow> index \<Rightarrow> real option" where
  "stepHeightSpec el ws c =
     (case el c of
        None \<Rightarrow> None
      | Some h \<Rightarrow>
          (let steps = windowSteps el h ws in
           if steps \<noteq> [] \<and> 0 < Max (set steps) then toFloat (Max (set steps)) else None))"

definition stepHeightLayer :: "stepFilter \<Rightarrow> gridmap \<Rightarrow> layer \<Rightarrow> layer" where
  "stepHeightLayer f m el =
     (\<lambda>c. if c \<in> set (cells m) then stepHeightSpec el (firstWindow f m c) c else None)"

text \<open>The largest valid value among the cells \<open>ws\<close> of a layer, and 0 when there is none above 0.\<close>

definition runningMax :: "layer \<Rightarrow> index list \<Rightarrow> real" where
  "runningMax sh ws = Max (insert 0 (set (List.map_filter sh ws)))"

text \<open>
  Position \<open>k\<close> of the scanned window \<open>ws\<close> raises the running maximum above the critical
  value: its cell is valid, and its value is greater than the maximum of the cells scanned
  before it and greater than \<open>crit\<close>.
\<close>

definition raisesMax :: "real \<Rightarrow> layer \<Rightarrow> index list \<Rightarrow> nat \<Rightarrow> bool" where
  "raisesMax crit sh ws k =
     (case sh (ws ! k) of
        None \<Rightarrow> False
      | Some v \<Rightarrow> runningMax sh (take k ws) < v \<and> crit < v)"

definition countedCells :: "real \<Rightarrow> layer \<Rightarrow> index list \<Rightarrow> nat list" where
  "countedCells crit sh ws = filter (raisesMax crit sh ws) [0..<length ws]"

text \<open>The value of the output layer at a cell with second window \<open>ws\<close>.\<close>

definition costSpec :: "stepFilter \<Rightarrow> layer \<Rightarrow> index list \<Rightarrow> real option" where
  "costSpec f sh ws =
     (if List.map_filter sh ws = [] then None
      else toFloat (traversability f
             (dampedStep f (int (length (countedCells (criticalValue f) sh ws)))
                (runningMax sh ws))))"

definition costLayer :: "stepFilter \<Rightarrow> gridmap \<Rightarrow> layer \<Rightarrow> layer" where
  "costLayer f m sh =
     (\<lambda>c. if c \<in> set (cells m) then costSpec f sh (secondWindow f m c) else None)"

section \<open>Example data\<close>

text \<open>
  A parameter dictionary that \<open>configure\<close> accepts, and a raster of one row of four cells
  of side 1, whose circle iterator yields the cells with centre at distance at most the
  radius, in the order of the row.
\<close>

definition goodParams :: params where
  "goodParams =
     [''critical_value'' \<mapsto> ParamDouble (3 / 10),
      ''first_window_radius'' \<mapsto> ParamDouble 1,
      ''second_window_radius'' \<mapsto> ParamInt 1,
      ''critical_cell_number'' \<mapsto> ParamInt 1,
      ''map_type'' \<mapsto> ParamString ''traversability_step'']"

definition rowCells :: "index list" where
  "rowCells = [(0, 0), (0, 1), (0, 2), (0, 3)]"

definition rowMap :: "layer \<Rightarrow> gridmap" where
  "rowMap el =
     \<lparr>cells = rowCells,
      getPosition = (\<lambda>c. (real_of_int (fst c), real_of_int (snd c))),
      circleIterator =
        (\<lambda>p r. filter (\<lambda>c. (real_of_int (fst c) - fst p)\<^sup>2 + (real_of_int (snd c) - snd p)\<^sup>2 \<le> r\<^sup>2)
                  rowCells),
      layerData = [''elevation'' \<mapsto> el]\<rparr>"

text \<open>Height 1 at cell \<open>(0, 1)\<close> and 0 elsewhere; the second layer has no elevation at \<open>(0, 3)\<close>.\<close>

definition spike :: layer where
  "spike = (\<lambda>c. if c = (0, 1) then Some 1 else Some 0)"

definition spikeGap :: layer where
  "spikeGap = (\<lambda>c. if c = (0, 1) then Some 1 else if c = (0, 3) then None else Some 0)"

text \<open>
  The step heights of both: 1 at the first three cells. Two more elevation layers, on the
  first two cells only: heights 1 and \<^verbatim>\<open>2^-30\<close>, and heights \<^verbatim>\<open>2^127\<close> and \<^verbatim>\<open>-2^127\<close>, which are
  all values of a \<^verbatim>\<open>float\<close>.
\<close>

definition spikeSteps :: layer where
  "spikeSteps = (\<lambda>c. if c \<in> {(0, 0), (0, 1), (0, 2)} then Some 1 else None)"

definition fine :: layer where
  "fine = (\<lambda>c. if c = (0, 0) then Some 1 else if c = (0, 1) then Some (1 / 2 ^ 30) else None)"

definition steep :: layer where
  "steep = (\<lambda>c. if c = (0, 0) then Some (2 ^ 127) else if c = (0, 1) then Some (- (2 ^ 127)) else None)"

definition rowFilter :: "int \<Rightarrow> string \<Rightarrow> stepFilter" where
  "rowFilter n t =
     \<lparr>criticalValue = 3 / 10, firstWindowRadius = 1, secondWindowRadius = 1,
      nCellCritical = n, mapType = t\<rparr>"

section \<open>Values of the conversion to float\<close>

lemma pow2_powr: "pow2 k = 2 powr real_of_int k"
  by (simp add: pow2_def powr_real_of_int inverse_eq_divide)

lemma floor_log2_eq:
  assumes "pow2 k \<le> x" and "x < pow2 (k + 1)"
  shows "\<lfloor>log 2 x\<rfloor> = k"
proof -
  have "0 < pow2 k"
    by (simp add: pow2_powr)
  with assms(1) have "0 < x"
    by simp
  then show ?thesis
    using assms by (simp add: floor_log_eq_powr_iff pow2_powr)
qed

lemma toFloat_0: "toFloat 0 = Some 0"
  by (simp add: toFloat_def)

lemma toFloat_1: "toFloat 1 = Some 1"
  by (simp add: toFloat_def roundEven_def pow2_def Let_def)

lemma toFloat_below_1: "toFloat (1 - 1 / 2 ^ 30) = Some 1"
proof -
  have fl: "\<lfloor>log 2 \<bar>1 - 1 / 2 ^ 30 :: real\<bar>\<rfloor> = - 1"
    by (rule floor_log2_eq) (simp_all add: pow2_def)
  have q: "\<lfloor>(1 - 1 / 2 ^ 30) / pow2 (- 1 - 23) :: real\<rfloor> = 2 ^ 24 - 1"
    by (simp add: pow2_def floor_eq_iff)
  show ?thesis
    unfolding toFloat_def fl Let_def roundEven_def
    by (simp add: q) (simp add: pow2_def)
qed

lemma toFloat_overflow: "toFloat (2 ^ 128) = None"
proof -
  have fl: "\<lfloor>log 2 \<bar>2 ^ 128 :: real\<bar>\<rfloor> = 128"
    by (rule floor_log2_eq) (simp_all add: pow2_def)
  show ?thesis
    unfolding toFloat_def fl Let_def roundEven_def
    by (simp add: pow2_def)
qed

section \<open>The loops and their closed forms\<close>

lemma at_layer_Some: "layerData m l = Some d \<Longrightarrow> at_layer m l i = Inr (d i)"
  by (simp add: at_layer_def)

lemma windowSteps_Cons:
  "windowSteps el h (c # ws) =
     (case el c of None \<Rightarrow> windowSteps el h ws | Some e \<Rightarrow> \<bar>h - e\<bar> # windowSteps el h ws)"
  by (simp add: windowSteps_def map_filter_simps split: option.splits)

lemma firstWindowScan_fold:
  assumes "layerData m ''elevation'' = Some el"
  shows "firstWindowScan m h ws s = Inr (fold max (windowSteps el h ws) s)"
proof (induction ws arbitrary: s)
  case Nil
  show ?case by (simp add: windowSteps_def map_filter_simps)
next
  case (Cons c ws)
  show ?case
    by (cases "el c") (simp_all add: at_layer_Some [OF assms] windowSteps_Cons Cons.IH max_def)
qed

lemma windowSteps_nonneg: "x \<in> set (windowSteps el h ws) \<Longrightarrow> 0 \<le> x"
  by (auto simp: windowSteps_def)

lemma fold_max_Max: "fold max xs (s::real) = Max (insert s (set xs))"
  using Max.set_eq_fold [of s xs] by simp

lemma fold_max_nonneg:
  assumes "\<And>x. x \<in> set xs \<Longrightarrow> (0::real) \<le> x"
  shows "(0 < fold max xs 0) = (xs \<noteq> [] \<and> 0 < Max (set xs))"
    and "0 < fold max xs 0 \<Longrightarrow> fold max xs 0 = Max (set xs)"
proof -
  show "(0 < fold max xs 0) = (xs \<noteq> [] \<and> 0 < Max (set xs))"
  proof (cases "xs = []")
    case True
    then show ?thesis by simp
  next
    case False
    then have "Max (insert 0 (set xs)) = max 0 (Max (set xs))"
      by simp
    with False show ?thesis by (simp add: fold_max_Max max_def)
  qed
  show "0 < fold max xs 0 \<Longrightarrow> fold max xs 0 = Max (set xs)"
  proof (cases "xs = []")
    case True
    assume "0 < fold max xs 0"
    with True show ?thesis by simp
  next
    case False
    assume "0 < fold max xs 0"
    moreover from False have "Max (insert 0 (set xs)) = max 0 (Max (set xs))"
      by simp
    ultimately show ?thesis by (simp add: fold_max_Max max_def split: if_splits)
  qed
qed

lemma stepHeightSpec_fold:
  "stepHeightSpec el ws c =
     (case el c of
        None \<Rightarrow> None
      | Some h \<Rightarrow>
          if 0 < fold max (windowSteps el h ws) 0 then toFloat (fold max (windowSteps el h ws) 0)
          else None)"
proof (cases "el c")
  case None
  then show ?thesis by (simp add: stepHeightSpec_def)
next
  case (Some h)
  have nn: "\<And>x. x \<in> set (windowSteps el h ws) \<Longrightarrow> 0 \<le> x"
    by (rule windowSteps_nonneg)
  show ?thesis
    using fold_max_nonneg [OF nn] Some
    by (auto simp: stepHeightSpec_def Let_def)
qed

lemma stepFound_fold:
  "stepFound el ws c =
     (case el c of None \<Rightarrow> False | Some h \<Rightarrow> 0 < fold max (windowSteps el h ws) 0)"
proof (cases "el c")
  case None
  then show ?thesis by (simp add: stepFound_def)
next
  case (Some h)
  have nn: "\<And>x. x \<in> set (windowSteps el h ws) \<Longrightarrow> 0 \<le> x"
    by (rule windowSteps_nonneg)
  show ?thesis
    using fold_max_nonneg(1) [OF nn] Some
    by (simp add: stepFound_def)
qed

lemma stepHeightSpec_not_found: "\<not> stepFound el ws c \<Longrightarrow> stepHeightSpec el ws c = None"
  by (auto simp: stepFound_def stepHeightSpec_def Let_def split: option.splits)

lemma firstIteration_eq:
  assumes "layerData m ''elevation'' = Some el" and "layerData m ''step_height'' = Some sh"
  shows "firstIteration f cs m =
     Inr (m\<lparr>layerData := (layerData m)(''step_height'' \<mapsto>
            (\<lambda>c. if c \<in> set cs \<and> stepFound el (firstWindow f m c) c
                 then stepHeightSpec el (firstWindow f m c) c
                 else sh c))\<rparr>)"
  using assms
proof (induction cs arbitrary: m sh)
  case Nil
  then have "(layerData m)(''step_height'' \<mapsto> sh) = layerData m"
    by (simp add: fun_upd_idem)
  then show ?case by simp
next
  case (Cons i cs)
  note el = Cons.prems(1) and sh = Cons.prems(2)
  let ?found = "\<lambda>c. stepFound el (firstWindow f m c) c"
  let ?spec = "\<lambda>c. stepHeightSpec el (firstWindow f m c) c"
  show ?case
  proof (cases "?found i")
    case False
    have step: "firstIteration f (i # cs) m = firstIteration f cs m"
      using False el
      by (cases "el i")
        (simp_all add: at_layer_Some [OF el] firstWindowScan_fold [OF el] stepFound_fold
          firstWindow_def split: if_splits)
    have funs: "(\<lambda>c. if c \<in> set (i # cs) \<and> ?found c then ?spec c else sh c)
        = (\<lambda>c. if c \<in> set cs \<and> ?found c then ?spec c else sh c)"
      using False by (auto simp: fun_eq_iff)
    note step
    also note Cons.IH [OF el sh]
    finally show ?thesis
      unfolding funs .
  next
    case True
    let ?m' = "m\<lparr>layerData := (layerData m)(''step_height'' \<mapsto> sh(i := ?spec i))\<rparr>"
    have step: "firstIteration f (i # cs) m = firstIteration f cs ?m'"
      using True el sh
      by (cases "el i")
        (simp_all add: at_layer_Some [OF el] firstWindowScan_fold [OF el] stepFound_fold
          stepHeightSpec_fold firstWindow_def assign_at_def split: if_splits)
    have el': "layerData ?m' ''elevation'' = Some el"
      using el by simp
    have sh': "layerData ?m' ''step_height'' = Some (sh(i := ?spec i))"
      by simp
    have win: "firstWindow f ?m' = firstWindow f m"
      by (simp add: firstWindow_def fun_eq_iff)
    have funs: "(\<lambda>c. if c \<in> set cs \<and> ?found c then ?spec c else (sh(i := ?spec i)) c)
        = (\<lambda>c. if c \<in> set (i # cs) \<and> ?found c then ?spec c else sh c)"
      using True by (auto simp: fun_eq_iff)
    note step
    also have "firstIteration f cs ?m' =
        Inr (?m'\<lparr>layerData := (layerData ?m')(''step_height'' \<mapsto>
            (\<lambda>c. if c \<in> set cs \<and> ?found c then ?spec c else (sh(i := ?spec i)) c))\<rparr>)"
      using Cons.IH [OF el' sh'] unfolding win .
    also have "\<dots> = Inr (m\<lparr>layerData := (layerData m)(''step_height'' \<mapsto>
            (\<lambda>c. if c \<in> set (i # cs) \<and> ?found c then ?spec c else sh c))\<rparr>)"
      unfolding funs by simp
    finally show ?thesis .
  qed
qed

lemma secondWindowScan_append:
  "secondWindowScan f m (xs @ ys) acc =
     (case secondWindowScan f m xs acc of
        Inl e \<Rightarrow> Inl e
      | Inr acc' \<Rightarrow> secondWindowScan f m ys acc')"
proof (induction xs arbitrary: acc)
  case Nil
  show ?case by simp
next
  case (Cons x xs)
  obtain n s v where acc: "acc = (n, s, v)"
    by (cases acc) auto
  show ?case
    unfolding acc by (simp add: Cons.IH split: sum.splits option.splits)
qed

lemma runningMax_Nil: "runningMax sh [] = 0"
  by (simp add: runningMax_def map_filter_simps)

lemma runningMax_snoc:
  "runningMax sh (ws @ [w]) =
     (case sh w of None \<Rightarrow> runningMax sh ws | Some v \<Rightarrow> max (runningMax sh ws) v)"
proof (cases "sh w")
  case None
  then show ?thesis by (simp add: runningMax_def map_filter_def)
next
  case (Some v)
  have "Max (insert v (insert 0 (set (List.map_filter sh ws))))
      = max v (Max (insert 0 (set (List.map_filter sh ws))))"
    by (rule Max_insert) simp_all
  then show ?thesis
    using Some by (simp add: runningMax_def map_filter_def insert_commute max.commute)
qed

lemma raisesMax_snoc_old:
  "k < length ws \<Longrightarrow> raisesMax crit sh (ws @ [w]) k = raisesMax crit sh ws k"
  by (simp add: raisesMax_def nth_append split: option.splits)

lemma raisesMax_snoc_new:
  "raisesMax crit sh (ws @ [w]) (length ws) =
     (case sh w of None \<Rightarrow> False | Some v \<Rightarrow> runningMax sh ws < v \<and> crit < v)"
  by (simp add: raisesMax_def split: option.splits)

lemma countedCells_snoc:
  "countedCells crit sh (ws @ [w]) =
     countedCells crit sh ws @
       (if raisesMax crit sh (ws @ [w]) (length ws) then [length ws] else [])"
proof -
  have "filter (raisesMax crit sh (ws @ [w])) [0..<length ws]
      = filter (raisesMax crit sh ws) [0..<length ws]"
    by (rule filter_cong) (simp_all add: raisesMax_snoc_old)
  then show ?thesis by (simp add: countedCells_def)
qed

lemma secondWindowScan_closed:
  assumes "layerData m ''step_height'' = Some sh"
  shows "secondWindowScan f m ws (0, 0, False) =
     Inr (int (length (countedCells (criticalValue f) sh ws)), runningMax sh ws,
          List.map_filter sh ws \<noteq> [])"
proof (induction ws rule: rev_induct)
  case Nil
  show ?case by (simp add: countedCells_def runningMax_Nil map_filter_simps)
next
  case (snoc w ws)
  show ?case
  proof (cases "sh w")
    case None
    then show ?thesis
      by (simp add: secondWindowScan_append snoc.IH at_layer_Some [OF assms]
          countedCells_snoc raisesMax_snoc_new runningMax_snoc map_filter_def)
  next
    case (Some v)
    then show ?thesis
      by (simp add: secondWindowScan_append snoc.IH at_layer_Some [OF assms]
          countedCells_snoc raisesMax_snoc_new runningMax_snoc map_filter_def max_def)
  qed
qed

lemma secondIteration_eq:
  assumes "layerData m ''step_height'' = Some sh" and "layerData m (mapType f) = Some d"
    and "mapType f \<noteq> ''step_height''" and "nCellCritical f \<noteq> 0"
  shows "secondIteration f cs m =
     Inr (m\<lparr>layerData := (layerData m)(mapType f \<mapsto>
            (\<lambda>c. if c \<in> set cs \<and> List.map_filter sh (secondWindow f m c) \<noteq> []
                 then costSpec f sh (secondWindow f m c)
                 else d c))\<rparr>)"
  using assms(1,2)
proof (induction cs arbitrary: m d)
  case Nil
  then have "(layerData m)(mapType f \<mapsto> d) = layerData m"
    by (simp add: fun_upd_idem)
  then show ?case by simp
next
  case (Cons i cs)
  note sh = Cons.prems(1) and d = Cons.prems(2)
  note neq = assms(3) and nz = assms(4)
  let ?valid = "\<lambda>c. List.map_filter sh (secondWindow f m c) \<noteq> []"
  let ?spec = "\<lambda>c. costSpec f sh (secondWindow f m c)"
  show ?case
  proof (cases "?valid i")
    case False
    have step: "secondIteration f (i # cs) m = secondIteration f cs m"
      using False
      by (simp add: secondWindowScan_closed [OF sh] secondWindow_def)
    have funs: "(\<lambda>c. if c \<in> set (i # cs) \<and> ?valid c then ?spec c else d c)
        = (\<lambda>c. if c \<in> set cs \<and> ?valid c then ?spec c else d c)"
      using False by (auto simp: fun_eq_iff)
    note step
    also note Cons.IH [OF sh d]
    finally show ?thesis
      unfolding funs .
  next
    case True
    let ?m' = "m\<lparr>layerData := (layerData m)(mapType f \<mapsto> d(i := ?spec i))\<rparr>"
    have step: "secondIteration f (i # cs) m = secondIteration f cs ?m'"
      using True d nz
      by (simp add: secondWindowScan_closed [OF sh] costSpec_def secondWindow_def
          assign_at_def)
    have sh': "layerData ?m' ''step_height'' = Some sh"
      using sh neq by simp
    have d': "layerData ?m' (mapType f) = Some (d(i := ?spec i))"
      by simp
    have win: "secondWindow f ?m' = secondWindow f m"
      by (simp add: secondWindow_def fun_eq_iff)
    have funs: "(\<lambda>c. if c \<in> set cs \<and> ?valid c then ?spec c else (d(i := ?spec i)) c)
        = (\<lambda>c. if c \<in> set (i # cs) \<and> ?valid c then ?spec c else d c)"
      using True by (auto simp: fun_eq_iff)
    note step
    also have "secondIteration f cs ?m' =
        Inr (?m'\<lparr>layerData := (layerData ?m')(mapType f \<mapsto>
            (\<lambda>c. if c \<in> set cs \<and> ?valid c then ?spec c else (d(i := ?spec i)) c))\<rparr>)"
      using Cons.IH [OF sh' d'] unfolding win .
    also have "\<dots> = Inr (m\<lparr>layerData := (layerData m)(mapType f \<mapsto>
            (\<lambda>c. if c \<in> set (i # cs) \<and> ?valid c then ?spec c else d c))\<rparr>)"
      unfolding funs by simp
    finally show ?thesis .
  qed
qed

lemma secondIteration_frame:
  assumes "nCellCritical f \<noteq> 0"
  shows "layerData m ''step_height'' \<noteq> None \<Longrightarrow> layerData m (mapType f) \<noteq> None \<Longrightarrow>
    \<exists>d'. secondIteration f cs m = Inr (m\<lparr>layerData := (layerData m)(mapType f \<mapsto> d')\<rparr>)"
proof (induction cs arbitrary: m)
  case Nil
  from Nil.prems(2) obtain d where d: "layerData m (mapType f) = Some d"
    by auto
  then have "(layerData m)(mapType f \<mapsto> d) = layerData m"
    by (simp add: fun_upd_idem)
  then have "secondIteration f [] m = Inr (m\<lparr>layerData := (layerData m)(mapType f \<mapsto> d)\<rparr>)"
    by simp
  then show ?case by (rule exI [where x = d])
next
  case (Cons i cs)
  from Cons.prems obtain sh d where sh: "layerData m ''step_height'' = Some sh"
    and d: "layerData m (mapType f) = Some d"
    by auto
  let ?ws = "circleIterator m (getPosition m i) (secondWindowRadius f)"
  show ?case
  proof (cases "List.map_filter sh ?ws = []")
    case True
    then have step: "secondIteration f (i # cs) m = secondIteration f cs m"
      by (simp add: secondWindowScan_closed [OF sh])
    from Cons.IH [OF Cons.prems] show ?thesis
      unfolding step .
  next
    case False
    define v where "v = toFloat (traversability f
             (dampedStep f (int (length (countedCells (criticalValue f) sh ?ws)))
                (runningMax sh ?ws)))"
    let ?m' = "m\<lparr>layerData := (layerData m)(mapType f \<mapsto> d(i := v))\<rparr>"
    have step: "secondIteration f (i # cs) m = secondIteration f cs ?m'"
      using False d assms
      by (simp add: secondWindowScan_closed [OF sh] assign_at_def v_def)
    have "layerData ?m' ''step_height'' \<noteq> None" "layerData ?m' (mapType f) \<noteq> None"
      using sh by simp_all
    from Cons.IH [OF this] obtain d' where
      "secondIteration f cs ?m' = Inr (?m'\<lparr>layerData := (layerData ?m')(mapType f \<mapsto> d')\<rparr>)"
      by blast
    then have "secondIteration f cs ?m'
        = Inr (m\<lparr>layerData := (layerData m)(mapType f \<mapsto> d')\<rparr>)"
      by simp
    then have "secondIteration f (i # cs) m
        = Inr (m\<lparr>layerData := (layerData m)(mapType f \<mapsto> d')\<rparr>)"
      unfolding step .
    then show ?thesis by (rule exI [where x = d'])
  qed
qed

lemma addLayers_simps:
  "cells (addLayers f m) = cells m"
  "getPosition (addLayers f m) = getPosition m"
  "circleIterator (addLayers f m) = circleIterator m"
  "layerData (addLayers f m) =
     (layerData m)(mapType f \<mapsto> (\<lambda>_. None), ''step_height'' \<mapsto> (\<lambda>_. None))"
  by (simp_all add: addLayers_def add_def)

lemma firstIteration_addLayers:
  assumes "layerData (addLayers f mapIn) ''elevation'' = Some el"
  shows "firstIteration f (cells mapIn) (addLayers f mapIn) =
     Inr ((addLayers f mapIn)\<lparr>layerData :=
            (layerData (addLayers f mapIn))(''step_height'' \<mapsto> stepHeightLayer f mapIn el)\<rparr>)"
proof -
  have sh: "layerData (addLayers f mapIn) ''step_height'' = Some (\<lambda>_. None)"
    by (simp add: addLayers_simps)
  have win: "firstWindow f (addLayers f mapIn) = firstWindow f mapIn"
    by (simp add: firstWindow_def addLayers_simps fun_eq_iff)
  have funs: "(\<lambda>c. if c \<in> set (cells mapIn) \<and> stepFound el (firstWindow f mapIn c) c
           then stepHeightSpec el (firstWindow f mapIn c) c
           else None) = stepHeightLayer f mapIn el"
    by (auto simp: stepHeightLayer_def fun_eq_iff stepHeightSpec_not_found)
  show ?thesis
    using firstIteration_eq [OF assms sh, of f "cells mapIn"] unfolding win funs .
qed

lemma update_eq:
  assumes el: "layerData (addLayers f mapIn) ''elevation'' = Some el"
    and neq: "mapType f \<noteq> ''step_height''" and nz: "nCellCritical f \<noteq> 0"
  shows "update f mapIn =
     Inr (mapIn\<lparr>layerData :=
            ((layerData mapIn)(mapType f \<mapsto> costLayer f mapIn (stepHeightLayer f mapIn el)))
              (''step_height'' := None)\<rparr>)"
proof -
  let ?m0 = "addLayers f mapIn"
  let ?sh = "stepHeightLayer f mapIn el"
  let ?m1 = "?m0\<lparr>layerData := (layerData ?m0)(''step_height'' \<mapsto> ?sh)\<rparr>"
  have p1: "firstIteration f (cells ?m0) ?m0 = Inr ?m1"
    using firstIteration_addLayers [OF el] by (simp add: addLayers_simps)
  have sh1: "layerData ?m1 ''step_height'' = Some ?sh"
    by simp
  have d1: "layerData ?m1 (mapType f) = Some (\<lambda>_. None)"
    using neq by (simp add: addLayers_simps)
  have win: "secondWindow f ?m1 = secondWindow f mapIn"
    by (simp add: secondWindow_def addLayers_simps fun_eq_iff)
  have funs: "(\<lambda>c. if c \<in> set (cells mapIn) \<and>
                List.map_filter ?sh (secondWindow f mapIn c) \<noteq> []
           then costSpec f ?sh (secondWindow f mapIn c)
           else None) = costLayer f mapIn ?sh"
    by (auto simp: costLayer_def costSpec_def fun_eq_iff)
  have p2: "secondIteration f (cells ?m1) ?m1 =
      Inr (?m1\<lparr>layerData := (layerData ?m1)(mapType f \<mapsto> costLayer f mapIn ?sh)\<rparr>)"
    using secondIteration_eq [OF sh1 d1 neq nz, of "cells ?m1"] unfolding win
    by (simp add: addLayers_simps funs)
  have "update f mapIn =
      Inr (erase (?m1\<lparr>layerData := (layerData ?m1)(mapType f \<mapsto> costLayer f mapIn ?sh)\<rparr>)
             ''step_height'')"
    unfolding update_def Let_def p1 using p2 by simp
  also have "\<dots> = Inr (mapIn\<lparr>layerData :=
            ((layerData mapIn)(mapType f \<mapsto> costLayer f mapIn ?sh))(''step_height'' := None)\<rparr>)"
    using neq by (auto simp: erase_def addLayers_def add_def fun_eq_iff)
  finally show ?thesis .
qed

lemma update_frame:
  assumes el: "layerData mapIn ''elevation'' \<noteq> None" and nz: "nCellCritical f \<noteq> 0"
  shows "\<exists>d. update f mapIn =
     Inr (mapIn\<lparr>layerData := ((layerData mapIn)(mapType f \<mapsto> d))(''step_height'' := None)\<rparr>)"
proof -
  let ?m0 = "addLayers f mapIn"
  from el obtain el' where el': "layerData ?m0 ''elevation'' = Some el'"
    by (cases "mapType f = ''elevation''") (auto simp: addLayers_simps)
  let ?sh = "stepHeightLayer f mapIn el'"
  let ?m1 = "?m0\<lparr>layerData := (layerData ?m0)(''step_height'' \<mapsto> ?sh)\<rparr>"
  have p1: "firstIteration f (cells ?m0) ?m0 = Inr ?m1"
    using firstIteration_addLayers [OF el'] by (simp add: addLayers_simps)
  have "layerData ?m1 ''step_height'' \<noteq> None" "layerData ?m1 (mapType f) \<noteq> None"
    by (simp_all add: addLayers_simps)
  from secondIteration_frame [OF nz this, of "cells ?m1"] obtain d where
    p2: "secondIteration f (cells ?m1) ?m1 =
      Inr (?m1\<lparr>layerData := (layerData ?m1)(mapType f \<mapsto> d)\<rparr>)"
    by blast
  have "update f mapIn =
      Inr (erase (?m1\<lparr>layerData := (layerData ?m1)(mapType f \<mapsto> d)\<rparr>) ''step_height'')"
    unfolding update_def Let_def p1 using p2 by simp
  also have "\<dots> = Inr (mapIn\<lparr>layerData :=
            ((layerData mapIn)(mapType f \<mapsto> d))(''step_height'' := None)\<rparr>)"
    by (auto simp: erase_def addLayers_def add_def fun_eq_iff)
  finally show ?thesis by (rule exI [where x = d])
qed

lemma outputAt_eq:
  assumes "layerData (addLayers f mapIn) ''elevation'' = Some el"
    and "mapType f \<noteq> ''step_height''" and "nCellCritical f \<noteq> 0"
  shows "outputAt f mapIn c = Inr (costLayer f mapIn (stepHeightLayer f mapIn el) c)"
  using assms(2) by (simp add: outputAt_def update_eq [OF assms] at_layer_def)

section \<open>Evaluating the example data\<close>

lemmas getParam_defs = getParam_double_def getParam_int_def getParam_string_def

lemmas row_defs = rowMap_def rowCells_def rowFilter_def spike_def spikeGap_def
  firstWindow_def secondWindow_def

lemmas closed_form_defs = stepHeightLayer_def stepHeightSpec_def windowSteps_def
  costLayer_def costSpec_def countedCells_def raisesMax_def runningMax_def
  traversability_def dampedStep_def map_filter_simps signed_divide_int_def upt_rec
  toFloat_0 toFloat_1

lemma stepHeightLayer_spike:
  "stepHeightLayer (rowFilter n t) (rowMap spike) spike =
     (\<lambda>c. if c \<in> {(0, 0), (0, 1), (0, 2)} then Some 1 else None)"
  by (auto simp add: fun_eq_iff closed_form_defs row_defs)

lemma stepHeightLayer_spikeGap:
  "stepHeightLayer (rowFilter n t) (rowMap spikeGap) spikeGap =
     (\<lambda>c. if c \<in> {(0, 0), (0, 1), (0, 2)} then Some 1 else None)"
  by (auto simp add: fun_eq_iff closed_form_defs row_defs)

section \<open>Configuration\<close>

text \<open>
  C5, as amended. \<open>configure\<close> succeeds when the five parameters are found and the critical
  value, the two radii and the critical cell number are greater than zero, whatever the name
  of the output layer is, the empty name included; and when it succeeds the five parameters
  were found, the critical value and the radii are not negative and the critical cell number
  is greater than zero. So it fails when a parameter is missing, when the critical value or a
  radius is negative, and when the critical cell number is zero or less.
\<close>

theorem configure_accepts:
  "(getParam_double ps ''critical_value'' = Some cv \<and>
    getParam_double ps ''first_window_radius'' = Some r1 \<and>
    getParam_double ps ''second_window_radius'' = Some r2 \<and>
    getParam_int ps ''critical_cell_number'' = Some n \<and>
    getParam_string ps ''map_type'' = Some t \<and>
    0 < cv \<and> 0 < r1 \<and> 0 < r2 \<and> 0 < n \<longrightarrow>
    configure ps f =
      (True, \<lparr>criticalValue = cv, firstWindowRadius = r1, secondWindowRadius = r2,
              nCellCritical = n, mapType = t\<rparr>)) \<and>
   (fst (configure ps f) \<longrightarrow>
    (\<exists>cv r1 r2 n t.
       getParam_double ps ''critical_value'' = Some cv \<and>
       getParam_double ps ''first_window_radius'' = Some r1 \<and>
       getParam_double ps ''second_window_radius'' = Some r2 \<and>
       getParam_int ps ''critical_cell_number'' = Some n \<and>
       getParam_string ps ''map_type'' = Some t \<and>
       0 \<le> cv \<and> 0 \<le> r1 \<and> 0 \<le> r2 \<and> 0 < n))"
  by (auto simp: configure_def Let_def split: option.splits if_splits)

theorem configure_accepts_witness:
  "configure goodParams StepFilter = (True, rowFilter 1 ''traversability_step'') \<and>
   fst (configure goodParams StepFilter)"
  using configure_accepts [of goodParams "3 / 10" 1 1 1 "''traversability_step''" StepFilter]
  by (simp add: goodParams_def getParam_defs rowFilter_def)

text \<open>
  C5 as stated fails: with the empty string as \<^verbatim>\<open>map_type\<close> and the other parameters of
  \<open>goodParams\<close>, \<open>configure\<close> succeeds.
\<close>

theorem configure_empty_name_counterexample:
  "fst (configure (goodParams(''map_type'' \<mapsto> ParamString '''')) StepFilter) \<and>
   getParam_string (goodParams(''map_type'' \<mapsto> ParamString '''')) ''map_type'' = Some ''''"
  by (simp add: configure_def goodParams_def getParam_defs StepFilter_def)

text \<open>
  C6, as amended. When \<open>configure\<close> fails, a member holds the value read for it if the call
  got as far as reading it (the parameters before it were found and not rejected, and its own
  parameter was found), the rejected value included, and its old value otherwise; the name
  of the output layer is never changed by a call that fails.
\<close>

theorem configure_failure_retains:
  assumes "\<not> fst (configure ps f)"
  shows "criticalValue (snd (configure ps f)) =
           (case getParam_double ps ''critical_value'' of
              None \<Rightarrow> criticalValue f
            | Some cv \<Rightarrow> cv) \<and>
         firstWindowRadius (snd (configure ps f)) =
           (case (getParam_double ps ''critical_value'',
                  getParam_double ps ''first_window_radius'') of
              (Some cv, Some r1) \<Rightarrow> if cv < 0 then firstWindowRadius f else r1
            | _ \<Rightarrow> firstWindowRadius f) \<and>
         secondWindowRadius (snd (configure ps f)) =
           (case (getParam_double ps ''critical_value'',
                  getParam_double ps ''first_window_radius'',
                  getParam_double ps ''second_window_radius'') of
              (Some cv, Some r1, Some r2) \<Rightarrow>
                if cv < 0 \<or> r1 < 0 then secondWindowRadius f else r2
            | _ \<Rightarrow> secondWindowRadius f) \<and>
         nCellCritical (snd (configure ps f)) =
           (case (getParam_double ps ''critical_value'',
                  getParam_double ps ''first_window_radius'',
                  getParam_double ps ''second_window_radius'',
                  getParam_int ps ''critical_cell_number'') of
              (Some cv, Some r1, Some r2, Some n) \<Rightarrow>
                if cv < 0 \<or> r1 < 0 \<or> r2 < 0 then nCellCritical f else n
            | _ \<Rightarrow> nCellCritical f) \<and>
         mapType (snd (configure ps f)) = mapType f"
  using assms
  by (auto simp: configure_def Let_def split: option.splits if_splits)

theorem configure_failure_retains_witness:
  "\<not> fst (configure (goodParams(''critical_cell_number'' \<mapsto> ParamInt 0)) StepFilter) \<and>
   snd (configure (goodParams(''critical_cell_number'' \<mapsto> ParamInt 0)) StepFilter) =
     \<lparr>criticalValue = 3 / 10, firstWindowRadius = 1, secondWindowRadius = 1,
      nCellCritical = 0, mapType = ''traversability_step''\<rparr>"
proof -
  let ?ps = "goodParams(''critical_cell_number'' \<mapsto> ParamInt 0)"
  have fails: "\<not> fst (configure ?ps StepFilter)"
    by (simp add: configure_def goodParams_def getParam_defs StepFilter_def)
  from configure_failure_retains [OF fails] show ?thesis
    using fails by (cases "snd (configure ?ps StepFilter)")
      (simp add: goodParams_def getParam_defs StepFilter_def)
qed

text \<open>
  C6 as stated fails: a call that finds only \<^verbatim>\<open>critical_value\<close> fails, and the critical
  value it read stays in the filter.
\<close>

theorem configure_partial_counterexample:
  "\<not> fst (configure [''critical_value'' \<mapsto> ParamDouble 1] StepFilter) \<and>
   snd (configure [''critical_value'' \<mapsto> ParamDouble 1] StepFilter) \<noteq> StepFilter \<and>
   criticalValue (snd (configure [''critical_value'' \<mapsto> ParamDouble 1] StepFilter)) = 1 \<and>
   criticalValue StepFilter = 3 / 10"
  by (simp add: configure_def getParam_defs StepFilter_def)

section \<open>The step-height pass\<close>

text \<open>
  C2, as amended. Let \<open>el\<close> be the elevation layer of the map the passes work on (the
  elevation layer of the input, unless the output layer is itself named \<^verbatim>\<open>elevation\<close>). The
  first pass of \<open>update\<close> returns, and changes the \<^verbatim>\<open>step_height\<close> layer only. A cell of the
  raster whose elevation is invalid keeps no step height. For a cell with elevation \<open>h\<close>, take
  the greatest \<open>\<bar>h - e\<bar>\<close> over the valid elevations \<open>e\<close> of the cells of its first window: when
  it is greater than zero the cell gets that maximum converted to \<^verbatim>\<open>float\<close>, which is the
  maximum itself when a \<^verbatim>\<open>float\<close> can hold it, the nearest \<^verbatim>\<open>float\<close> otherwise, and no valid
  value when the maximum is too large for a \<^verbatim>\<open>float\<close>; the cell keeps no step height
  otherwise.
\<close>

theorem stepHeight_pass:
  assumes el: "layerData (addLayers f mapIn) ''elevation'' = Some el"
  shows "firstIteration f (cells mapIn) (addLayers f mapIn) =
     Inr ((addLayers f mapIn)\<lparr>layerData :=
            (layerData (addLayers f mapIn))(''step_height'' \<mapsto>
               (\<lambda>c. if c \<in> set (cells mapIn)
                    then (case el c of
                            None \<Rightarrow> None
                          | Some h \<Rightarrow>
                              (let steps = map (\<lambda>e. \<bar>h - e\<bar>)
                                             (List.map_filter el (firstWindow f mapIn c))
                               in if steps \<noteq> [] \<and> 0 < Max (set steps)
                                  then toFloat (Max (set steps)) else None))
                    else None))\<rparr>)"
proof -
  have closed: "(\<lambda>c. if c \<in> set (cells mapIn)
                    then (case el c of
                            None \<Rightarrow> None
                          | Some h \<Rightarrow>
                              (let steps = map (\<lambda>e. \<bar>h - e\<bar>)
                                             (List.map_filter el (firstWindow f mapIn c))
                               in if steps \<noteq> [] \<and> 0 < Max (set steps)
                                  then toFloat (Max (set steps)) else None))
                    else None) = stepHeightLayer f mapIn el"
    unfolding stepHeightLayer_def stepHeightSpec_def windowSteps_def ..
  show ?thesis
    unfolding closed by (rule firstIteration_addLayers [OF el])
qed

theorem stepHeight_pass_witness:
  "layerData (addLayers (rowFilter 1 ''traversability_step'') (rowMap spikeGap)) ''elevation'' =
     Some spikeGap \<and>
   firstIteration (rowFilter 1 ''traversability_step'') rowCells
       (addLayers (rowFilter 1 ''traversability_step'') (rowMap spikeGap)) =
     Inr ((rowMap spikeGap)\<lparr>layerData :=
            [''elevation'' \<mapsto> spikeGap,
             ''traversability_step'' \<mapsto> (\<lambda>_. None),
             ''step_height'' \<mapsto> (\<lambda>c. if c \<in> {(0, 0), (0, 1), (0, 2)} then Some 1 else None)]\<rparr>)"
proof -
  let ?f = "rowFilter 1 ''traversability_step''"
  have el: "layerData (addLayers ?f (rowMap spikeGap)) ''elevation'' = Some spikeGap"
    by (simp add: addLayers_simps rowMap_def rowFilter_def)
  have sh: "(\<lambda>c. if c \<in> set (cells (rowMap spikeGap))
                    then (case spikeGap c of
                            None \<Rightarrow> None
                          | Some h \<Rightarrow>
                              (let steps = map (\<lambda>e. \<bar>h - e\<bar>)
                                    (List.map_filter spikeGap (firstWindow ?f (rowMap spikeGap) c))
                               in if steps \<noteq> [] \<and> 0 < Max (set steps)
                                  then toFloat (Max (set steps)) else None))
                    else None) = (\<lambda>c. if c \<in> {(0, 0), (0, 1), (0, 2)} then Some 1 else None)"
    using stepHeightLayer_spikeGap [of 1 "''traversability_step''"]
    unfolding stepHeightLayer_def stepHeightSpec_def windowSteps_def .
  have "firstIteration ?f (cells (rowMap spikeGap)) (addLayers ?f (rowMap spikeGap)) =
     Inr ((addLayers ?f (rowMap spikeGap))\<lparr>layerData :=
            (layerData (addLayers ?f (rowMap spikeGap)))(''step_height'' \<mapsto>
               (\<lambda>c. if c \<in> {(0, 0), (0, 1), (0, 2)} then Some 1 else None))\<rparr>)"
    using stepHeight_pass [OF el] unfolding sh .
  then show ?thesis
    using el by (simp add: addLayers_def add_def rowMap_def rowFilter_def)
qed

text \<open>
  C2 as stated fails. On the row with the elevations 1 and \<^verbatim>\<open>2^-30\<close>, the first window of cell
  \<open>(0, 0)\<close> holds both cells and the greatest distance is \<^verbatim>\<open>1 - 2^-30\<close>, and the step height
  of the cell is 1. On the row with the elevations \<^verbatim>\<open>2^127\<close> and \<^verbatim>\<open>-2^127\<close> the greatest
  distance is \<^verbatim>\<open>2^128\<close>, which is greater than zero, and the cell has no valid step height.
\<close>

theorem stepHeight_rounded_counterexample:
  "fine (0, 0) = Some 1 \<and> fine (0, 1) = Some (1 / 2 ^ 30) \<and>
   firstWindow (rowFilter 1 ''traversability_step'') (rowMap fine) (0, 0) = [(0, 0), (0, 1)] \<and>
   max \<bar>1 - 1\<bar> \<bar>1 - 1 / 2 ^ 30\<bar> = (1 - 1 / 2 ^ 30 :: real) \<and>
   stepHeightAt (rowFilter 1 ''traversability_step'') (rowMap fine) (0, 0) = Inr (Some 1) \<and>
   steep (0, 0) = Some (2 ^ 127) \<and> steep (0, 1) = Some (- (2 ^ 127)) \<and>
   max \<bar>2 ^ 127 - 2 ^ 127\<bar> \<bar>2 ^ 127 - - (2 ^ 127)\<bar> = (2 ^ 128 :: real) \<and>
   stepHeightAt (rowFilter 1 ''traversability_step'') (rowMap steep) (0, 0) = Inr None"
proof -
  let ?f = "rowFilter 1 ''traversability_step''"
  have win: "firstWindow ?f (rowMap el) (0, 0) = [(0, 0), (0, 1)]" for el
    by (simp add: row_defs)
  have at: "stepHeightAt ?f (rowMap el) (0, 0) = Inr (stepHeightSpec el [(0, 0), (0, 1)] (0, 0))" for el
  proof -
    have "layerData (addLayers ?f (rowMap el)) ''elevation'' = Some el"
      by (simp add: addLayers_simps rowMap_def rowFilter_def)
    from firstIteration_addLayers [OF this] show ?thesis
      by (simp add: stepHeightAt_def addLayers_simps at_layer_def stepHeightLayer_def win)
        (simp add: rowMap_def rowCells_def)
  qed
  have "stepHeightSpec fine [(0, 0), (0, 1)] (0, 0) = toFloat (1 - 1 / 2 ^ 30)"
    by (simp add: stepHeightSpec_def windowSteps_def map_filter_simps fine_def)
  then have fine: "stepHeightAt ?f (rowMap fine) (0, 0) = Inr (Some 1)"
    unfolding at toFloat_below_1 by (rule arg_cong)
  have "stepHeightSpec steep [(0, 0), (0, 1)] (0, 0) = toFloat (2 ^ 128)"
    by (simp add: stepHeightSpec_def windowSteps_def map_filter_simps steep_def)
  then have steep: "stepHeightAt ?f (rowMap steep) (0, 0) = Inr None"
    unfolding at toFloat_overflow by (rule arg_cong)
  from fine steep show ?thesis
    by (simp add: win) (simp add: fine_def steep_def)
qed

section \<open>The cost-aggregation pass\<close>

text \<open>
  C3. The scan of a second window returns; its counter is the number of positions of the
  window whose cell has a valid step height that is greater than the running maximum before
  that position (the greatest valid value scanned so far, or 0) and greater than the
  critical value. Its second result is the greatest valid value of the window (0 when there
  is none), and its flag tells whether the window has a valid cell. So a cell above the
  critical value that does not raise the running maximum is not counted.
\<close>

theorem counter_counts_raised_maxima:
  assumes "layerData m ''step_height'' = Some sh"
  shows "secondWindowScan f m ws (0, 0, False) =
     Inr (int (length (filter
                 (\<lambda>k. case sh (ws ! k) of
                        None \<Rightarrow> False
                      | Some v \<Rightarrow> runningMax sh (take k ws) < v \<and> criticalValue f < v)
                 [0..<length ws])),
          runningMax sh ws, List.map_filter sh ws \<noteq> [])"
  using secondWindowScan_closed [OF assms, of f ws]
  by (simp add: countedCells_def raisesMax_def cong: filter_cong)

theorem counter_counts_raised_maxima_witness:
  "layerData ((rowMap spike)\<lparr>layerData := [''step_height'' \<mapsto> [(0, 0) \<mapsto> 1, (0, 1) \<mapsto> 1 / 2, (0, 2) \<mapsto> 2]]\<rparr>)
     ''step_height'' = Some [(0, 0) \<mapsto> 1, (0, 1) \<mapsto> 1 / 2, (0, 2) \<mapsto> 2] \<and>
   secondWindowScan (rowFilter 1 ''traversability_step'')
     ((rowMap spike)\<lparr>layerData := [''step_height'' \<mapsto> [(0, 0) \<mapsto> 1, (0, 1) \<mapsto> 1 / 2, (0, 2) \<mapsto> 2]]\<rparr>)
     rowCells (0, 0, False) = Inr (2, 2, True)"
proof -
  let ?sh = "[(0, 0) \<mapsto> 1, (0, 1) \<mapsto> 1 / 2, (0, 2) \<mapsto> 2] :: layer"
  let ?m = "(rowMap spike)\<lparr>layerData := [''step_height'' \<mapsto> ?sh]\<rparr>"
  have sh: "layerData ?m ''step_height'' = Some ?sh"
    by simp
  from counter_counts_raised_maxima [OF sh, of "rowFilter 1 ''traversability_step''" rowCells]
  show ?thesis
    by (simp add: rowCells_def rowFilter_def runningMax_def map_filter_simps upt_rec)
qed

section \<open>Bounds and validity of the output\<close>

lemma sdiv_nonneg_pos: "0 \<le> n \<Longrightarrow> 0 < k \<Longrightarrow> (n::int) sdiv k = n div k"
  by (cases "n = 0") (simp_all add: signed_divide_int_def)

lemma sdiv_small: "0 \<le> n \<Longrightarrow> n < k \<Longrightarrow> (n::int) sdiv k = 0"
  by (simp add: sdiv_nonneg_pos)

lemma runningMax_nonneg: "0 \<le> runningMax sh ws"
  by (simp add: runningMax_def)

lemma map_filter_nonempty: "(List.map_filter sh ws \<noteq> []) = (\<exists>j \<in> set ws. sh j \<noteq> None)"
  by (auto simp: map_filter_def filter_empty_conv)

lemma dampedStep_nonneg:
  assumes "0 \<le> n" and "0 < nCellCritical f" and "0 \<le> s"
  shows "0 \<le> dampedStep f n s"
proof -
  from assms(1,2) have "0 \<le> n div nCellCritical f"
    by (simp add: pos_imp_zdiv_nonneg_iff)
  with assms show ?thesis
    by (simp add: dampedStep_def sdiv_nonneg_pos)
qed

lemma traversability_bounds:
  assumes "0 \<le> step"
  shows "0 \<le> traversability f step" and "traversability f step \<le> 1"
proof -
  show "0 \<le> traversability f step"
  proof (cases "step < criticalValue f")
    case True
    with assms have "step / criticalValue f \<le> 1"
      by simp
    with True show ?thesis by (simp add: traversability_def)
  next
    case False
    then show ?thesis by (simp add: traversability_def)
  qed
  show "traversability f step \<le> 1"
  proof (cases "step < criticalValue f")
    case True
    with assms have "0 \<le> step / criticalValue f"
      by simp
    with True show ?thesis by (simp add: traversability_def)
  next
    case False
    then show ?thesis by (simp add: traversability_def)
  qed
qed

text \<open>
  With a critical cell number greater than zero the value computed for a cell is 0 or 1, which
  a \<^verbatim>\<open>float\<close> holds as it is: the quotient of the counter is zero and so is the damped step, or
  the counter is not zero, and then the damped step is the maximum, which is above the
  critical value.
\<close>

lemma counted_above:
  assumes "k \<in> set (countedCells crit sh ws)"
  shows "crit < runningMax sh ws"
proof -
  from assms have k: "k < length ws" and "raisesMax crit sh ws k"
    by (simp_all add: countedCells_def)
  then obtain v where v: "sh (ws ! k) = Some v" and above: "crit < v"
    by (auto simp: raisesMax_def split: option.splits)
  from k v have "v \<in> set (List.map_filter sh ws)"
    by (force simp: map_filter_def)
  then have "v \<le> Max (insert 0 (set (List.map_filter sh ws)))"
    by (intro Max_ge) simp_all
  with above show ?thesis
    unfolding runningMax_def by linarith
qed

lemma cost_zero_or_one:
  assumes pos: "0 < nCellCritical f"
  shows "traversability f
           (dampedStep f (int (length (countedCells (criticalValue f) sh ws))) (runningMax sh ws))
         \<in> {0, 1}"
proof -
  let ?n = "int (length (countedCells (criticalValue f) sh ws))"
  let ?s = "runningMax sh ws"
  have s: "0 \<le> ?s"
    by (rule runningMax_nonneg)
  show ?thesis
  proof (cases "?n < nCellCritical f")
    case True
    then have "?n sdiv nCellCritical f = 0"
      by (intro sdiv_small) simp_all
    with s have "dampedStep f ?n ?s = 0"
      by (simp add: dampedStep_def)
    then show ?thesis
      by (simp add: traversability_def)
  next
    case False
    with pos have "countedCells (criticalValue f) sh ws \<noteq> []"
      by auto
    then obtain k where "k \<in> set (countedCells (criticalValue f) sh ws)"
      by (cases "countedCells (criticalValue f) sh ws") auto
    then have above: "criticalValue f < ?s"
      by (rule counted_above)
    from False have "nCellCritical f \<le> ?n"
      by simp
    with pos have "0 < ?n div nCellCritical f"
      by (simp only: pos_imp_zdiv_pos_iff)
    then have "1 \<le> ?n div nCellCritical f"
      by simp
    then have "1 \<le> real_of_int (?n div nCellCritical f)"
      by simp
    with s have "1 * ?s \<le> real_of_int (?n div nCellCritical f) * ?s"
      by (intro mult_right_mono)
    with pos have "dampedStep f ?n ?s = ?s"
      by (simp add: dampedStep_def sdiv_nonneg_pos)
    with above show ?thesis
      by (simp add: traversability_def)
  qed
qed

lemma costSpec_pos:
  assumes "0 < nCellCritical f"
  shows "costSpec f sh ws =
     (if List.map_filter sh ws = [] then None
      else Some (traversability f
             (dampedStep f (int (length (countedCells (criticalValue f) sh ws)))
                (runningMax sh ws))))"
  using cost_zero_or_one [OF assms, of sh ws]
  by (auto simp: costSpec_def toFloat_0 toFloat_1)


lemma costSpec_valid:
  assumes "0 < nCellCritical f"
  shows "(costSpec f sh ws \<noteq> None) = (\<exists>j \<in> set ws. sh j \<noteq> None)"
  using map_filter_nonempty [of sh ws] by (auto simp: costSpec_pos [OF assms])



lemma stepHeightLayer_invalid: "el c = None \<Longrightarrow> stepHeightLayer f m el c = None"
  by (simp add: stepHeightLayer_def stepHeightSpec_def)

lemma first_pass_result:
  assumes "layerData mapIn ''elevation'' \<noteq> None"
  shows "\<exists>el'. layerData (addLayers f mapIn) ''elevation'' = Some el' \<and>
     firstIteration f (cells mapIn) (addLayers f mapIn) =
       Inr ((addLayers f mapIn)\<lparr>layerData :=
            (layerData (addLayers f mapIn))(''step_height'' \<mapsto> stepHeightLayer f mapIn el')\<rparr>) \<and>
     (\<forall>el c. layerData mapIn ''elevation'' = Some el \<longrightarrow> el c = None \<longrightarrow> el' c = None)"
proof -
  from assms obtain el where el: "layerData mapIn ''elevation'' = Some el"
    by auto
  define el' where "el' = (if mapType f = ''elevation'' then (\<lambda>_. None) else el)"
  have 1: "layerData (addLayers f mapIn) ''elevation'' = Some el'"
    using el by (simp add: addLayers_simps el'_def)
  have 2: "\<forall>el0 c. layerData mapIn ''elevation'' = Some el0 \<longrightarrow> el0 c = None \<longrightarrow> el' c = None"
    using el by (simp add: el'_def)
  from 1 firstIteration_addLayers [OF 1] 2 show ?thesis
    by blast
qed

text \<open>
  C1, as amended. Take an input with an elevation layer, an output name other than \<^verbatim>\<open>step_height\<close> and a
  critical cell number greater than zero, and a cell \<open>c\<close> of the raster whose second window
  has a cell with a valid step height after the first pass. Let the scan of that window
  return the counter \<open>nCells\<close> and the maximum \<open>stepMax\<close>. Then \<open>update\<close> returns, and the
  output layer holds at \<open>c\<close> the value \<open>1 - step / criticalValue\<close> when
  \<open>step < criticalValue\<close> and 0 otherwise, where \<open>step\<close> is the smaller of \<open>stepMax\<close> and
  the truncated quotient of \<open>nCells\<close> by \<open>nCellCritical\<close> times \<open>stepMax\<close>. When
  \<open>nCells < nCellCritical\<close>, \<open>step\<close> is 0 whatever \<open>stepMax\<close> is, and the output is then 1
  when the critical value is greater than zero.
\<close>

theorem output_formula:
  assumes el: "layerData mapIn ''elevation'' \<noteq> None"
    and neq: "mapType f \<noteq> ''step_height''"
    and pos: "0 < nCellCritical f"
    and c: "c \<in> set (cells mapIn)"
    and p1: "firstIteration f (cells mapIn) (addLayers f mapIn) = Inr m1"
    and sh: "layerData m1 ''step_height'' = Some sh"
    and scan: "secondWindowScan f m1 (secondWindow f mapIn c) (0, 0, False) =
                 Inr (nCells, stepMax, isValid)"
    and j: "j \<in> set (secondWindow f mapIn c)" and valid: "sh j \<noteq> None"
  shows "\<exists>out d. update f mapIn = Inr out \<and> layerData out (mapType f) = Some d \<and>
      d c = Some (let step = min stepMax (real_of_int (nCells sdiv nCellCritical f) * stepMax)
                  in if step < criticalValue f then 1 - step / criticalValue f else 0) \<and>
      (nCells < nCellCritical f \<longrightarrow>
         min stepMax (real_of_int (nCells sdiv nCellCritical f) * stepMax) = 0 \<and>
         (0 < criticalValue f \<longrightarrow> d c = Some 1))"
proof -
  from first_pass_result [OF el, of f] obtain el' where
    el': "layerData (addLayers f mapIn) ''elevation'' = Some el'" and
    p1': "firstIteration f (cells mapIn) (addLayers f mapIn) =
      Inr ((addLayers f mapIn)\<lparr>layerData :=
            (layerData (addLayers f mapIn))(''step_height'' \<mapsto> stepHeightLayer f mapIn el')\<rparr>)"
    by blast
  from p1 p1' sh have sh_eq: "stepHeightLayer f mapIn el' = sh"
    by auto
  let ?ws = "secondWindow f mapIn c"
  let ?d = "costLayer f mapIn sh"
  let ?out = "mapIn\<lparr>layerData := ((layerData mapIn)(mapType f \<mapsto> ?d))(''step_height'' := None)\<rparr>"
  have nonempty: "List.map_filter sh ?ws \<noteq> []"
    using j valid by (auto simp: map_filter_nonempty)
  from scan have results: "nCells = int (length (countedCells (criticalValue f) sh ?ws))"
    "stepMax = runningMax sh ?ws"
    by (simp_all add: secondWindowScan_closed [OF sh])
  have upd: "update f mapIn = Inr ?out"
    using update_eq [OF el' neq] pos unfolding sh_eq by simp
  have lay: "layerData ?out (mapType f) = Some ?d"
    using neq by simp
  have val: "?d c = Some (traversability f (dampedStep f nCells stepMax))"
    using c nonempty by (simp add: costLayer_def costSpec_pos [OF pos] results)
  have formula: "traversability f (dampedStep f nCells stepMax) =
      (let step = min stepMax (real_of_int (nCells sdiv nCellCritical f) * stepMax)
       in if step < criticalValue f then 1 - step / criticalValue f else 0)"
    by (simp add: traversability_def dampedStep_def Let_def)
  have small: "min stepMax (real_of_int (nCells sdiv nCellCritical f) * stepMax) = 0 \<and>
      (0 < criticalValue f \<longrightarrow> ?d c = Some 1)" if "nCells < nCellCritical f"
  proof -
    have "0 \<le> nCells"
      by (simp add: results)
    then have "nCells sdiv nCellCritical f = 0"
      using that by (rule sdiv_small)
    moreover have "0 \<le> stepMax"
      by (simp add: results runningMax_nonneg)
    ultimately show ?thesis
      by (simp add: val traversability_def dampedStep_def)
  qed
  from upd lay val small show ?thesis
    unfolding formula by blast
qed

theorem output_formula_witness:
  "\<exists>out d. update (rowFilter 5 ''traversability_step'') (rowMap spikeGap) = Inr out \<and>
      layerData out ''traversability_step'' = Some d \<and> d (0, 3) = Some 1"
proof -
  let ?f = "rowFilter 5 ''traversability_step''"
  let ?sh = "\<lambda>c::index. if c \<in> {(0, 0), (0, 1), (0, 2)} then Some (1::real) else None"
  let ?m1 = "(addLayers ?f (rowMap spikeGap))\<lparr>layerData :=
            (layerData (addLayers ?f (rowMap spikeGap)))(''step_height'' \<mapsto> ?sh)\<rparr>"
  have el: "layerData (rowMap spikeGap) ''elevation'' \<noteq> None"
    by (simp add: rowMap_def)
  have el': "layerData (addLayers ?f (rowMap spikeGap)) ''elevation'' = Some spikeGap"
    by (simp add: addLayers_simps rowMap_def rowFilter_def)
  have neq: "mapType ?f \<noteq> ''step_height''" and pos: "0 < nCellCritical ?f"
    by (simp_all add: rowFilter_def)
  have c: "(0, 3) \<in> set (cells (rowMap spikeGap))"
    by (simp add: row_defs)
  have p1: "firstIteration ?f (cells (rowMap spikeGap)) (addLayers ?f (rowMap spikeGap)) = Inr ?m1"
    using firstIteration_addLayers [OF el'] by (simp add: stepHeightLayer_spikeGap)
  have sh: "layerData ?m1 ''step_height'' = Some ?sh"
    by simp
  have j: "(0, 2) \<in> set (secondWindow ?f (rowMap spikeGap) (0, 3))" and valid: "?sh (0, 2) \<noteq> None"
    by (simp_all add: row_defs)
  have scan: "secondWindowScan ?f ?m1 (secondWindow ?f (rowMap spikeGap) (0, 3)) (0, 0, False) =
      Inr (1, 1, True)"
    by (subst secondWindowScan_closed [OF sh]) (simp add: row_defs closed_form_defs)
  from output_formula [OF el neq pos c p1 sh scan j valid] show ?thesis
    by (auto simp: rowFilter_def)
qed

text \<open>
  C1 as stated fails: \<open>configure\<close> accepts the critical value 0. With it and the critical cell
  number 5, the scan of the second window of cell \<open>(0, 0)\<close> of the example row with the spike
  returns the counter 1, which is less than 5, and the output of the cell is 0.
\<close>

theorem output_not_one_counterexample:
  "configure (goodParams(''critical_value'' \<mapsto> ParamDouble 0,
                         ''critical_cell_number'' \<mapsto> ParamInt 5)) StepFilter =
     (True, (rowFilter 5 ''traversability_step'')\<lparr>criticalValue := 0\<rparr>) \<and>
   firstIteration ((rowFilter 5 ''traversability_step'')\<lparr>criticalValue := 0\<rparr>) rowCells
       (addLayers ((rowFilter 5 ''traversability_step'')\<lparr>criticalValue := 0\<rparr>) (rowMap spike)) =
     Inr ((addLayers ((rowFilter 5 ''traversability_step'')\<lparr>criticalValue := 0\<rparr>) (rowMap spike))
            \<lparr>layerData :=
               (layerData (addLayers ((rowFilter 5 ''traversability_step'')\<lparr>criticalValue := 0\<rparr>)
                             (rowMap spike)))(''step_height'' \<mapsto> spikeSteps)\<rparr>) \<and>
   secondWindowScan ((rowFilter 5 ''traversability_step'')\<lparr>criticalValue := 0\<rparr>)
       ((addLayers ((rowFilter 5 ''traversability_step'')\<lparr>criticalValue := 0\<rparr>) (rowMap spike))
            \<lparr>layerData :=
               (layerData (addLayers ((rowFilter 5 ''traversability_step'')\<lparr>criticalValue := 0\<rparr>)
                             (rowMap spike)))(''step_height'' \<mapsto> spikeSteps)\<rparr>)
       (secondWindow ((rowFilter 5 ''traversability_step'')\<lparr>criticalValue := 0\<rparr>) (rowMap spike)
          (0, 0))
       (0, 0, False) = Inr (1, 1, True) \<and>
   1 < nCellCritical ((rowFilter 5 ''traversability_step'')\<lparr>criticalValue := 0\<rparr>) \<and>
   outputAt ((rowFilter 5 ''traversability_step'')\<lparr>criticalValue := 0\<rparr>) (rowMap spike) (0, 0) =
     Inr (Some 0)"
proof -
  let ?f = "(rowFilter 5 ''traversability_step'')\<lparr>criticalValue := 0\<rparr>"
  let ?m1 = "(addLayers ?f (rowMap spike))\<lparr>layerData :=
               (layerData (addLayers ?f (rowMap spike)))(''step_height'' \<mapsto> spikeSteps)\<rparr>"
  have f: "?f = \<lparr>criticalValue = 0, firstWindowRadius = 1, secondWindowRadius = 1,
      nCellCritical = 5, mapType = ''traversability_step''\<rparr>"
    by (simp add: rowFilter_def)
  have acc: "configure (goodParams(''critical_value'' \<mapsto> ParamDouble 0,
                         ''critical_cell_number'' \<mapsto> ParamInt 5)) StepFilter = (True, ?f)"
    by (simp add: configure_def goodParams_def getParam_defs StepFilter_def rowFilter_def)
  have el': "layerData (addLayers ?f (rowMap spike)) ''elevation'' = Some spike"
    by (simp add: addLayers_simps rowMap_def rowFilter_def)
  have neq: "mapType ?f \<noteq> ''step_height''" and nz: "nCellCritical ?f \<noteq> 0"
    and less: "1 < nCellCritical ?f"
    by (simp_all add: rowFilter_def)
  have steps: "stepHeightLayer ?f (rowMap spike) spike = spikeSteps"
    unfolding f spikeSteps_def
    by (auto simp add: fun_eq_iff closed_form_defs rowMap_def rowCells_def spike_def
          firstWindow_def)
  have row: "cells (rowMap spike) = rowCells"
    by (simp add: rowMap_def)
  have p1: "firstIteration ?f rowCells (addLayers ?f (rowMap spike)) = Inr ?m1"
    using firstIteration_addLayers [OF el'] unfolding steps row .
  have sh: "layerData ?m1 ''step_height'' = Some spikeSteps"
    by simp
  have scan: "secondWindowScan ?f ?m1 (secondWindow ?f (rowMap spike) (0, 0)) (0, 0, False) =
      Inr (1, 1, True)"
    by (subst secondWindowScan_closed [OF sh])
      (simp add: row_defs closed_form_defs spikeSteps_def)
  have "outputAt ?f (rowMap spike) (0, 0) = Inr (costLayer ?f (rowMap spike) spikeSteps (0, 0))"
    using outputAt_eq [OF el' neq nz] by (simp add: steps)
  also have "costLayer ?f (rowMap spike) spikeSteps (0, 0) = Some 0"
    by (simp add: row_defs closed_form_defs spikeSteps_def)
  finally have out: "outputAt ?f (rowMap spike) (0, 0) = Inr (Some 0)" .
  from acc p1 scan less out show ?thesis
    by (intro conjI)
qed



section \<open>The layers of the result\<close>

text \<open>
  C7, as amended. For an input with an elevation layer and a critical cell number other
  than zero, \<open>update\<close> returns a map with the cells and the geometry of the input whose
  layers are those of the input and the output layer, without \<^verbatim>\<open>step_height\<close>; every layer
  other than the output layer and \<^verbatim>\<open>step_height\<close> is the layer of the input. (So a layer of
  the input that has the name of the output layer is replaced, a \<^verbatim>\<open>step_height\<close> layer of the
  input is dropped, and there is no output layer when its name is \<^verbatim>\<open>step_height\<close>.)
\<close>

theorem update_layers:
  assumes "layerData mapIn ''elevation'' \<noteq> None" and "nCellCritical f \<noteq> 0"
  shows "\<exists>out. update f mapIn = Inr out \<and>
      cells out = cells mapIn \<and> getPosition out = getPosition mapIn \<and>
      circleIterator out = circleIterator mapIn \<and>
      dom (layerData out) = (dom (layerData mapIn) \<union> {mapType f}) - {''step_height''} \<and>
      (\<forall>l. l \<noteq> mapType f \<longrightarrow> l \<noteq> ''step_height'' \<longrightarrow> layerData out l = layerData mapIn l)"
proof -
  from update_frame [OF assms] obtain d where
    upd: "update f mapIn =
      Inr (mapIn\<lparr>layerData := ((layerData mapIn)(mapType f \<mapsto> d))(''step_height'' := None)\<rparr>)"
    by blast
  let ?out = "mapIn\<lparr>layerData := ((layerData mapIn)(mapType f \<mapsto> d))(''step_height'' := None)\<rparr>"
  have geometry: "cells ?out = cells mapIn \<and> getPosition ?out = getPosition mapIn \<and>
      circleIterator ?out = circleIterator mapIn"
    by simp
  have "dom (((layerData mapIn)(mapType f \<mapsto> d))(''step_height'' := None)) =
      (dom (layerData mapIn) \<union> {mapType f}) - {''step_height''}"
    by (simp only: dom_fun_upd simp_thms option.simps if_True if_False Un_insert_right Un_empty_right)
  then have names: "dom (layerData ?out) = (dom (layerData mapIn) \<union> {mapType f}) - {''step_height''}"
    by simp
  have others: "\<forall>l. l \<noteq> mapType f \<longrightarrow> l \<noteq> ''step_height'' \<longrightarrow>
      layerData ?out l = layerData mapIn l"
    by simp
  from upd geometry names others show ?thesis
    by (intro exI [where x = ?out] conjI) (assumption | erule conjunct1 | erule conjunct2 [THEN conjunct1] | erule conjunct2 [THEN conjunct2])+
qed

theorem update_layers_witness:
  "layerData (rowMap spikeGap) ''elevation'' \<noteq> None \<and>
   nCellCritical (rowFilter 1 ''traversability_step'') \<noteq> 0 \<and>
   (\<exists>out. update (rowFilter 1 ''traversability_step'') (rowMap spikeGap) = Inr out \<and>
      cells out = rowCells \<and>
      dom (layerData out) = {''elevation'', ''traversability_step''} \<and>
      layerData out ''elevation'' = Some spikeGap)"
proof -
  have el: "layerData (rowMap spikeGap) ''elevation'' \<noteq> None"
    by (simp add: rowMap_def)
  have nz: "nCellCritical (rowFilter 1 ''traversability_step'') \<noteq> 0"
    by (simp add: rowFilter_def)
  from update_layers [OF el nz] obtain out where
    "update (rowFilter 1 ''traversability_step'') (rowMap spikeGap) = Inr out"
    "cells out = cells (rowMap spikeGap)"
    "dom (layerData out) =
       (dom (layerData (rowMap spikeGap)) \<union> {mapType (rowFilter 1 ''traversability_step'')}) -
         {''step_height''}"
    "layerData out ''elevation'' = layerData (rowMap spikeGap) ''elevation''"
    by (force simp: rowFilter_def)
  then have "update (rowFilter 1 ''traversability_step'') (rowMap spikeGap) = Inr out \<and>
      cells out = rowCells \<and>
      dom (layerData out) = {''elevation'', ''traversability_step''} \<and>
      layerData out ''elevation'' = Some spikeGap"
    by (auto simp: rowMap_def rowFilter_def)
  with el nz show ?thesis
    by blast
qed

text \<open>
  C7 as stated fails: \<open>configure\<close> accepts \<^verbatim>\<open>step_height\<close> as the name of the output layer,
  and then \<open>update\<close> returns the input as it was, with no output layer.
\<close>

theorem update_output_erased_counterexample:
  "configure (goodParams(''map_type'' \<mapsto> ParamString ''step_height'')) StepFilter =
     (True, rowFilter 1 ''step_height'') \<and>
   update (rowFilter 1 ''step_height'') (rowMap spike) = Inr (rowMap spike) \<and>
   layerData (rowMap spike) (mapType (rowFilter 1 ''step_height'')) = None"
proof -
  have el: "layerData (rowMap spike) ''elevation'' \<noteq> None"
    by (simp add: rowMap_def)
  have nz: "nCellCritical (rowFilter 1 ''step_height'') \<noteq> 0"
    by (simp add: rowFilter_def)
  from update_frame [OF el nz] obtain d where
    "update (rowFilter 1 ''step_height'') (rowMap spike) =
      Inr ((rowMap spike)\<lparr>layerData :=
        ((layerData (rowMap spike))(mapType (rowFilter 1 ''step_height'') \<mapsto> d))
          (''step_height'' := None)\<rparr>)"
    by blast
  moreover have "((layerData (rowMap spike))(mapType (rowFilter 1 ''step_height'') \<mapsto> d))
          (''step_height'' := None) = layerData (rowMap spike)"
    by (auto simp: rowMap_def rowFilter_def fun_eq_iff)
  ultimately have "update (rowFilter 1 ''step_height'') (rowMap spike) = Inr (rowMap spike)"
    by simp
  then show ?thesis
    by (simp add: configure_def goodParams_def getParam_defs StepFilter_def rowFilter_def
        rowMap_def)
qed

section \<open>Cells without elevation\<close>

text \<open>
  C10. The second pass does not look at the elevation of the cell it visits: a cell of the
  raster with invalid elevation has no step height after the first pass, and still gets a
  value in the output layer when a cell of its second window has a valid step height.
\<close>

theorem invalid_elevation_cell_gets_cost:
  assumes el: "layerData mapIn ''elevation'' = Some el"
    and neq: "mapType f \<noteq> ''step_height''"
    and pos: "0 < nCellCritical f"
    and c: "c \<in> set (cells mapIn)" and inv: "el c = None"
    and p1: "firstIteration f (cells mapIn) (addLayers f mapIn) = Inr m1"
    and sh: "layerData m1 ''step_height'' = Some sh"
    and j: "j \<in> set (secondWindow f mapIn c)" and valid: "sh j \<noteq> None"
  shows "sh c = None \<and>
     (\<exists>out d v. update f mapIn = Inr out \<and> layerData out (mapType f) = Some d \<and> d c = Some v)"
proof -
  from el have el0: "layerData mapIn ''elevation'' \<noteq> None"
    by simp
  from first_pass_result [OF el0, of f] obtain el' where
    el': "layerData (addLayers f mapIn) ''elevation'' = Some el'" and
    p1': "firstIteration f (cells mapIn) (addLayers f mapIn) =
      Inr ((addLayers f mapIn)\<lparr>layerData :=
            (layerData (addLayers f mapIn))(''step_height'' \<mapsto> stepHeightLayer f mapIn el')\<rparr>)" and
    inv': "\<forall>el c. layerData mapIn ''elevation'' = Some el \<longrightarrow> el c = None \<longrightarrow> el' c = None"
    by blast
  from p1 p1' sh have sh_eq: "stepHeightLayer f mapIn el' = sh"
    by auto
  from inv' el inv have "el' c = None"
    by blast
  then have unset: "sh c = None"
    unfolding sh_eq [symmetric] by (rule stepHeightLayer_invalid)
  let ?d = "costLayer f mapIn sh"
  let ?out = "mapIn\<lparr>layerData := ((layerData mapIn)(mapType f \<mapsto> ?d))(''step_height'' := None)\<rparr>"
  have upd: "update f mapIn = Inr ?out"
    using update_eq [OF el' neq] pos unfolding sh_eq by simp
  have lay: "layerData ?out (mapType f) = Some ?d"
    using neq by simp
  have "costSpec f sh (secondWindow f mapIn c) \<noteq> None"
    using j valid unfolding costSpec_valid [OF pos] by blast
  then obtain v where "?d c = Some v"
    using c by (auto simp: costLayer_def)
  with upd lay unset show ?thesis
    by blast
qed

theorem invalid_elevation_cell_gets_cost_witness:
  "spikeGap (0, 3) = None \<and> outputAt (rowFilter 1 ''traversability_step'') (rowMap spikeGap) (0, 3) = Inr (Some 0)"
proof -
  let ?f = "rowFilter 1 ''traversability_step''"
  let ?sh = "\<lambda>c::index. if c \<in> {(0, 0), (0, 1), (0, 2)} then Some (1::real) else None"
  let ?m1 = "(addLayers ?f (rowMap spikeGap))\<lparr>layerData :=
            (layerData (addLayers ?f (rowMap spikeGap)))(''step_height'' \<mapsto> ?sh)\<rparr>"
  have el: "layerData (rowMap spikeGap) ''elevation'' = Some spikeGap"
    by (simp add: rowMap_def)
  have el': "layerData (addLayers ?f (rowMap spikeGap)) ''elevation'' = Some spikeGap"
    by (simp add: addLayers_simps rowMap_def rowFilter_def)
  have neq: "mapType ?f \<noteq> ''step_height''" and pos: "0 < nCellCritical ?f"
    by (simp_all add: rowFilter_def)
  have c: "(0, 3) \<in> set (cells (rowMap spikeGap))" and inv: "spikeGap (0, 3) = None"
    by (simp_all add: row_defs)
  have p1: "firstIteration ?f (cells (rowMap spikeGap)) (addLayers ?f (rowMap spikeGap)) = Inr ?m1"
    using firstIteration_addLayers [OF el'] by (simp add: stepHeightLayer_spikeGap)
  have sh: "layerData ?m1 ''step_height'' = Some ?sh"
    by simp
  have j: "(0, 2) \<in> set (secondWindow ?f (rowMap spikeGap) (0, 3))" and valid: "?sh (0, 2) \<noteq> None"
    by (simp_all add: row_defs)
  from invalid_elevation_cell_gets_cost [OF el neq pos c inv p1 sh j valid]
  obtain out d v where "update ?f (rowMap spikeGap) = Inr out"
    "layerData out (mapType ?f) = Some d" "d (0, 3) = Some v"
    by blast
  moreover from update_eq [OF el' neq] pos
  have "update ?f (rowMap spikeGap) =
     Inr ((rowMap spikeGap)\<lparr>layerData :=
            ((layerData (rowMap spikeGap))(mapType ?f \<mapsto> costLayer ?f (rowMap spikeGap) ?sh))
              (''step_height'' := None)\<rparr>)"
    by (simp add: stepHeightLayer_spikeGap)
  moreover have "costLayer ?f (rowMap spikeGap) ?sh (0, 3) = Some 0"
    by (simp add: row_defs closed_form_defs)
  ultimately show ?thesis
    using inv neq by (auto simp: outputAt_def at_layer_def)
qed

section \<open>The critical value and the output\<close>

lemma length_filter_mono:
  assumes "\<And>x. x \<in> set xs \<Longrightarrow> P x \<Longrightarrow> Q x"
  shows "length (filter P xs) \<le> length (filter Q xs)"
  using assms by (induction xs) auto

lemma countedCells_antimono:
  assumes "crit \<le> crit'"
  shows "length (countedCells crit' sh ws) \<le> length (countedCells crit sh ws)"
  unfolding countedCells_def
proof (rule length_filter_mono)
  fix k
  assume "raisesMax crit' sh ws k"
  with assms show "raisesMax crit sh ws k"
    by (auto simp: raisesMax_def split: option.splits)
qed

lemma dampedStep_mono:
  assumes "0 \<le> n'" and "n' \<le> n" and "0 < nCellCritical f"
    and "nCellCritical f' = nCellCritical f" and "0 \<le> s"
  shows "dampedStep f' n' s \<le> dampedStep f n s"
proof -
  from assms(1-3) have "n' div nCellCritical f \<le> n div nCellCritical f"
    by (simp add: zdiv_mono1)
  then have "real_of_int (n' div nCellCritical f) * s \<le> real_of_int (n div nCellCritical f) * s"
    using assms(5) by (simp add: mult_right_mono)
  with assms show ?thesis
    by (simp add: dampedStep_def sdiv_nonneg_pos)
qed

lemma traversability_mono:
  assumes "0 \<le> s'" and "s' \<le> s" and "criticalValue f \<le> criticalValue f'"
  shows "traversability f s \<le> traversability f' s'"
proof (cases "s < criticalValue f")
  case True
  with assms have "0 < criticalValue f" and "s' < criticalValue f'"
    by simp_all
  moreover from assms \<open>0 < criticalValue f\<close>
  have "s' / criticalValue f' \<le> s / criticalValue f"
    by (intro frac_le) simp_all
  ultimately show ?thesis
    using True by (simp add: traversability_def)
next
  case False
  with traversability_bounds(1) [OF assms(1), of f'] show ?thesis
    by (simp add: traversability_def)
qed

lemma costSpec_mono:
  assumes "0 < nCellCritical f" and "criticalValue f \<le> crit'"
  shows "(costSpec f sh ws = None \<and> costSpec (f\<lparr>criticalValue := crit'\<rparr>) sh ws = None) \<or>
     (\<exists>v v'. costSpec f sh ws = Some v \<and> costSpec (f\<lparr>criticalValue := crit'\<rparr>) sh ws = Some v' \<and>
        v \<le> v')"
proof (cases "List.map_filter sh ws = []")
  case True
  then show ?thesis by (simp add: costSpec_def)
next
  case False
  let ?f' = "f\<lparr>criticalValue := crit'\<rparr>"
  let ?n = "int (length (countedCells (criticalValue f) sh ws))"
  let ?n' = "int (length (countedCells crit' sh ws))"
  have "?n' \<le> ?n"
    using countedCells_antimono [OF assms(2)] by simp
  then have step: "dampedStep ?f' ?n' (runningMax sh ws) \<le> dampedStep f ?n (runningMax sh ws)"
    by (intro dampedStep_mono) (simp_all add: assms(1) runningMax_nonneg)
  have "0 \<le> dampedStep ?f' ?n' (runningMax sh ws)"
    by (rule dampedStep_nonneg) (simp_all add: assms(1) runningMax_nonneg)
  from traversability_mono [OF this step, where f = f and f' = ?f'] assms(2)
  have "traversability f (dampedStep f ?n (runningMax sh ws))
      \<le> traversability ?f' (dampedStep ?f' ?n' (runningMax sh ws))"
    by simp
  moreover have "0 < nCellCritical ?f'"
    using assms(1) by simp
  ultimately show ?thesis
    using False by (simp add: costSpec_pos [OF assms(1)] costSpec_pos [OF \<open>0 < nCellCritical ?f'\<close>])
qed

lemma criticalValue_irrelevant:
  "addLayers (f\<lparr>criticalValue := x\<rparr>) m = addLayers f m"
  "stepHeightLayer (f\<lparr>criticalValue := x\<rparr>) m el = stepHeightLayer f m el"
  "secondWindow (f\<lparr>criticalValue := x\<rparr>) m c = secondWindow f m c"
  by (simp_all add: addLayers_def stepHeightLayer_def firstWindow_def secondWindow_def
      cong: if_cong)

text \<open>
  C8, as amended. For an input with an elevation layer, an output name other than
  \<^verbatim>\<open>step_height\<close> and a critical cell number greater than zero, a greater critical value
  leaves an unset output cell unset, and leaves the value of a set output cell as it is or
  moves it towards 1.
\<close>

theorem criticalValue_raises_output:
  assumes el: "layerData mapIn ''elevation'' \<noteq> None"
    and neq: "mapType f \<noteq> ''step_height''"
    and pos: "0 < nCellCritical f"
    and le: "criticalValue f \<le> crit'"
  shows "(outputAt f mapIn c = Inr None \<and>
          outputAt (f\<lparr>criticalValue := crit'\<rparr>) mapIn c = Inr None) \<or>
     (\<exists>v v'. outputAt f mapIn c = Inr (Some v) \<and>
        outputAt (f\<lparr>criticalValue := crit'\<rparr>) mapIn c = Inr (Some v') \<and> v \<le> v')"
proof -
  let ?f' = "f\<lparr>criticalValue := crit'\<rparr>"
  from first_pass_result [OF el, of f] obtain el' where
    el': "layerData (addLayers f mapIn) ''elevation'' = Some el'"
    by blast
  then have el'': "layerData (addLayers ?f' mapIn) ''elevation'' = Some el'"
    by (simp add: criticalValue_irrelevant)
  from pos have nz: "nCellCritical f \<noteq> 0" and nz': "nCellCritical ?f' \<noteq> 0"
    by simp_all
  from neq have neq': "mapType ?f' \<noteq> ''step_height''"
    by simp
  let ?sh = "stepHeightLayer f mapIn el'"
  have out: "outputAt f mapIn c = Inr (costLayer f mapIn ?sh c)"
    by (rule outputAt_eq [OF el' neq nz])
  have out': "outputAt ?f' mapIn c = Inr (costLayer ?f' mapIn ?sh c)"
    using outputAt_eq [OF el'' neq' nz', of c] by (simp add: criticalValue_irrelevant)
  show ?thesis
  proof (cases "c \<in> set (cells mapIn)")
    case True
    with costSpec_mono [OF pos le, of ?sh "secondWindow f mapIn c"] show ?thesis
      unfolding out out' by (simp add: costLayer_def criticalValue_irrelevant)
  next
    case False
    then show ?thesis
      unfolding out out' by (simp add: costLayer_def)
  qed
qed

theorem criticalValue_raises_output_witness:
  "outputAt (rowFilter 1 ''traversability_step'') (rowMap spike) (0, 0) = Inr (Some 0) \<and>
   outputAt ((rowFilter 1 ''traversability_step'')\<lparr>criticalValue := 2\<rparr>) (rowMap spike) (0, 0) =
     Inr (Some 1)"
proof -
  let ?f = "rowFilter 1 ''traversability_step''"
  let ?sh = "\<lambda>c::index. if c \<in> {(0, 0), (0, 1), (0, 2)} then Some (1::real) else None"
  have el: "layerData (rowMap spike) ''elevation'' \<noteq> None"
    by (simp add: rowMap_def)
  have el': "layerData (addLayers ?f (rowMap spike)) ''elevation'' = Some spike"
    by (simp add: addLayers_simps rowMap_def rowFilter_def)
  have neq: "mapType ?f \<noteq> ''step_height''" and pos: "0 < nCellCritical ?f"
    and nz: "nCellCritical ?f \<noteq> 0" and le: "criticalValue ?f \<le> 2"
    by (simp_all add: rowFilter_def)
  have "outputAt ?f (rowMap spike) (0, 0) = Inr (costLayer ?f (rowMap spike) ?sh (0, 0))"
    using outputAt_eq [OF el' neq nz] by (simp add: stepHeightLayer_spike)
  also have "costLayer ?f (rowMap spike) ?sh (0, 0) = Some 0"
    by (simp add: row_defs closed_form_defs)
  finally have low: "outputAt ?f (rowMap spike) (0, 0) = Inr (Some 0)" .
  have "criticalValue (?f\<lparr>criticalValue := 2\<rparr>) = 2" "nCellCritical (?f\<lparr>criticalValue := 2\<rparr>) = 1"
    by (simp_all add: rowFilter_def)
  from criticalValue_raises_output [OF el neq pos le, of "(0, 0)"] low
  obtain v' where high: "outputAt (?f\<lparr>criticalValue := 2\<rparr>) (rowMap spike) (0, 0) = Inr (Some v')"
    and "0 \<le> v'"
    by auto
  have "layerData (addLayers (?f\<lparr>criticalValue := 2\<rparr>) (rowMap spike)) ''elevation'' = Some spike"
    "mapType (?f\<lparr>criticalValue := 2\<rparr>) \<noteq> ''step_height''" "nCellCritical (?f\<lparr>criticalValue := 2\<rparr>) \<noteq> 0"
    by (simp_all add: addLayers_simps rowMap_def rowFilter_def)
  from outputAt_eq [OF this, of "(0, 0)"]
  have "outputAt (?f\<lparr>criticalValue := 2\<rparr>) (rowMap spike) (0, 0) =
      Inr (costLayer (?f\<lparr>criticalValue := 2\<rparr>) (rowMap spike) ?sh (0, 0))"
    by (simp add: criticalValue_irrelevant stepHeightLayer_spike)
  also have "costLayer (?f\<lparr>criticalValue := 2\<rparr>) (rowMap spike) ?sh (0, 0) = Some 1"
    by (simp add: row_defs closed_form_defs)
  finally show ?thesis
    using low high by simp
qed

text \<open>
  C8 as stated fails: on the example row with the spike, raising the critical value from
  3/10 to 2 moves the output of cell \<open>(0, 0)\<close> from 0 to 1.
\<close>

theorem criticalValue_towards_zero_counterexample:
  "criticalValue (rowFilter 1 ''traversability_step'') < 2 \<and>
   outputAt (rowFilter 1 ''traversability_step'') (rowMap spike) (0, 0) = Inr (Some 0) \<and>
   outputAt ((rowFilter 1 ''traversability_step'')\<lparr>criticalValue := 2\<rparr>) (rowMap spike) (0, 0) =
     Inr (Some 1)"
proof -
  let ?f = "rowFilter 1 ''traversability_step''"
  let ?sh = "\<lambda>c::index. if c \<in> {(0, 0), (0, 1), (0, 2)} then Some (1::real) else None"
  have el': "layerData (addLayers ?f (rowMap spike)) ''elevation'' = Some spike"
    by (simp add: addLayers_simps rowMap_def rowFilter_def)
  have neq: "mapType ?f \<noteq> ''step_height''" and nz: "nCellCritical ?f \<noteq> 0"
    by (simp_all add: rowFilter_def)
  have "outputAt ?f (rowMap spike) (0, 0) = Inr (costLayer ?f (rowMap spike) ?sh (0, 0))"
    using outputAt_eq [OF el' neq nz] by (simp add: stepHeightLayer_spike)
  also have "costLayer ?f (rowMap spike) ?sh (0, 0) = Some 0"
    by (simp add: row_defs closed_form_defs)
  finally have low: "outputAt ?f (rowMap spike) (0, 0) = Inr (Some 0)" .
  have "layerData (addLayers (?f\<lparr>criticalValue := 2\<rparr>) (rowMap spike)) ''elevation'' = Some spike"
    "mapType (?f\<lparr>criticalValue := 2\<rparr>) \<noteq> ''step_height''" "nCellCritical (?f\<lparr>criticalValue := 2\<rparr>) \<noteq> 0"
    by (simp_all add: addLayers_simps rowMap_def rowFilter_def)
  from outputAt_eq [OF this, of "(0, 0)"]
  have "outputAt (?f\<lparr>criticalValue := 2\<rparr>) (rowMap spike) (0, 0) =
      Inr (costLayer (?f\<lparr>criticalValue := 2\<rparr>) (rowMap spike) ?sh (0, 0))"
    by (simp add: criticalValue_irrelevant stepHeightLayer_spike)
  also have "costLayer (?f\<lparr>criticalValue := 2\<rparr>) (rowMap spike) ?sh (0, 0) = Some 1"
    by (simp add: row_defs closed_form_defs)
  finally show ?thesis
    using low by (simp add: rowFilter_def)
qed

section \<open>A single spike\<close>

lemma spike_windowSteps:
  assumes "el = (\<lambda>c. if c = s then Some h else Some 0)" and "el c = Some hc"
  shows "set (windowSteps el hc ws) \<subseteq> {0, \<bar>h\<bar>}"
  using assms by (auto simp: windowSteps_def map_filter_def split: if_splits)

lemma spike_stepHeight_cases:
  assumes "el = (\<lambda>c. if c = s then Some h else Some 0)"
  shows "stepHeightSpec el ws c = None \<or> stepHeightSpec el ws c = toFloat \<bar>h\<bar>"
proof -
  obtain hc where hc: "el c = Some hc"
    using assms by (cases "c = s") auto
  let ?steps = "windowSteps el hc ws"
  show ?thesis
  proof (cases "?steps \<noteq> [] \<and> 0 < Max (set ?steps)")
    case True
    then have "Max (set ?steps) \<in> set ?steps"
      by (intro Max_in) simp_all
    then have "Max (set ?steps) \<in> {0, \<bar>h\<bar>}"
      using spike_windowSteps [OF assms hc, of ws] by (rule set_mp [rotated])
    moreover from True have "Max (set ?steps) \<noteq> 0"
      by linarith
    ultimately have "Max (set ?steps) = \<bar>h\<bar>"
      by blast
    with True hc show ?thesis
      by (simp add: stepHeightSpec_def)
  next
    case False
    with hc show ?thesis
      by (auto simp: stepHeightSpec_def Let_def)
  qed
qed

lemma spike_stepHeight_self:
  assumes el: "el = (\<lambda>c. if c = s then Some h else Some 0)"
    and c': "c' \<in> set ws" "c' \<noteq> s" and h: "h \<noteq> 0"
  shows "stepHeightSpec el ws s = toFloat \<bar>h\<bar>"
proof -
  have s: "el s = Some h"
    using el by simp
  let ?steps = "windowSteps el h ws"
  have "el c' = Some 0"
    using el c'(2) by simp
  with c'(1) have "0 \<in> set (List.map_filter el ws)"
    by (force simp: map_filter_def)
  then have mem: "\<bar>h\<bar> \<in> set ?steps"
    by (force simp: windowSteps_def)
  then have "\<bar>h\<bar> \<le> Max (set ?steps)"
    by (intro Max_ge) simp_all
  moreover from h have "0 < \<bar>h\<bar>"
    by simp
  ultimately have "0 < Max (set ?steps)"
    by linarith
  moreover from mem have "?steps \<noteq> []"
    by auto
  ultimately have "?steps \<noteq> [] \<and> 0 < Max (set ?steps)"
    by (rule conjI [rotated])
  moreover have "Max (set ?steps) \<in> set ?steps"
    using mem by (intro Max_in) auto
  then have "Max (set ?steps) \<in> {0, \<bar>h\<bar>}"
    using spike_windowSteps [OF el s, of ws] by (rule set_mp [rotated])
  ultimately have "Max (set ?steps) = \<bar>h\<bar>"
    by auto
  with \<open>?steps \<noteq> [] \<and> 0 < Max (set ?steps)\<close> s show ?thesis
    by (simp add: stepHeightSpec_def Let_def)
qed

lemma constant_scan:
  assumes sh: "layerData m ''step_height'' = Some sh"
    and v: "0 < v" "criticalValue f < v"
  shows "(\<forall>c \<in> set ws. sh c = None \<or> sh c = Some v) \<Longrightarrow>
      secondWindowScan f m ws (1, v, True) = Inr (1, v, True) \<and>
      secondWindowScan f m ws (0, 0, False) =
        Inr (if List.map_filter sh ws = [] then (0, 0, False) else (1, v, True))"
proof (induction ws)
  case Nil
  show ?case by (simp add: map_filter_simps)
next
  case (Cons w ws)
  then have IH: "secondWindowScan f m ws (1, v, True) = Inr (1, v, True)"
    "secondWindowScan f m ws (0, 0, False) =
        Inr (if List.map_filter sh ws = [] then (0, 0, False) else (1, v, True))"
    by simp_all
  from Cons.prems have "sh w = None \<or> sh w = Some v"
    by simp
  then show ?case
  proof
    assume "sh w = None"
    then show ?thesis
      by (simp add: at_layer_Some [OF sh] IH map_filter_simps)
  next
    assume "sh w = Some v"
    then show ?thesis
      using v by (simp add: at_layer_Some [OF sh] IH map_filter_simps)
  qed
qed

lemma constant_costSpec:
  assumes all: "\<forall>c \<in> set ws. sh c = None \<or> sh c = Some v"
    and some: "c \<in> set ws" "sh c = Some v"
    and v: "0 < v" "criticalValue f < v"
    and pos: "0 < nCellCritical f"
  shows "costSpec f sh ws = Some (traversability f (dampedStep f 1 v))"
proof -
  define m :: gridmap where
    "m = \<lparr>cells = [], getPosition = (\<lambda>_. (0, 0)), circleIterator = (\<lambda>_ _. []),
          layerData = [''step_height'' \<mapsto> sh]\<rparr>"
  have sh: "layerData m ''step_height'' = Some sh"
    by (simp add: m_def)
  have nonempty: "List.map_filter sh ws \<noteq> []"
    using some by (auto simp: map_filter_nonempty)
  from constant_scan [OF sh v all] nonempty
  have "secondWindowScan f m ws (0, 0, False) = Inr (1, v, True)"
    by simp
  then have "int (length (countedCells (criticalValue f) sh ws)) = 1" "runningMax sh ws = v"
    by (simp_all add: secondWindowScan_closed [OF sh])
  with nonempty show ?thesis
    by (simp add: costSpec_pos [OF pos])
qed

text \<open>
  C9, as amended. Take an input whose elevation is \<open>h\<close> at the cell \<open>s\<close> and 0 at every other
  cell, with \<open>\<bar>h\<bar>\<close> a value of a \<^verbatim>\<open>float\<close> (as the height in a cell is) above a critical value
  greater than zero, a first window of \<open>s\<close> that
  holds another cell, and an output name other than \<^verbatim>\<open>elevation\<close> and \<^verbatim>\<open>step_height\<close>. Then the
  step height of \<open>s\<close> after the first pass is \<open>\<bar>h\<bar>\<close>, and a cell \<open>n\<close> of the raster whose
  second window holds \<open>s\<close> gets the output 0 when the critical cell number is 1, and the
  output 1 when it is greater than 1.
\<close>

theorem spike_neighbour_output:
  assumes el: "layerData mapIn ''elevation'' = Some (\<lambda>c. if c = s then Some h else Some 0)"
    and ty: "mapType f \<noteq> ''elevation''" and neq: "mapType f \<noteq> ''step_height''"
    and s: "s \<in> set (cells mapIn)" and n: "n \<in> set (cells mapIn)"
    and cover: "c' \<in> set (firstWindow f mapIn s)" "c' \<noteq> s"
    and near: "s \<in> set (secondWindow f mapIn n)"
    and crit: "0 < criticalValue f" "criticalValue f < \<bar>h\<bar>"
    and pos: "0 < nCellCritical f"
    and float: "toFloat \<bar>h\<bar> = Some \<bar>h\<bar>"
  shows "\<exists>m1 sh. firstIteration f (cells mapIn) (addLayers f mapIn) = Inr m1 \<and>
      layerData m1 ''step_height'' = Some sh \<and> sh s = Some \<bar>h\<bar> \<and>
      outputAt f mapIn n = Inr (Some (if nCellCritical f = 1 then 0 else 1))"
proof -
  define el where "el = (\<lambda>c. if c = s then Some h else Some (0::real))"
  have el0: "layerData mapIn ''elevation'' = Some el"
    using el by (simp add: el_def)
  have el': "layerData (addLayers f mapIn) ''elevation'' = Some el"
    using el0 ty by (simp add: addLayers_simps)
  let ?sh = "stepHeightLayer f mapIn el"
  let ?m1 = "(addLayers f mapIn)\<lparr>layerData :=
            (layerData (addLayers f mapIn))(''step_height'' \<mapsto> ?sh)\<rparr>"
  have p1: "firstIteration f (cells mapIn) (addLayers f mapIn) = Inr ?m1"
    by (rule firstIteration_addLayers [OF el'])
  have sh: "layerData ?m1 ''step_height'' = Some ?sh"
    by simp
  from crit have h: "h \<noteq> 0" and abs: "0 < \<bar>h\<bar>"
    by auto
  have self: "?sh s = Some \<bar>h\<bar>"
    using s spike_stepHeight_self [OF el_def cover h] float by (simp add: stepHeightLayer_def)
  have all: "\<forall>c \<in> set (secondWindow f mapIn n). ?sh c = None \<or> ?sh c = Some \<bar>h\<bar>"
    using spike_stepHeight_cases [OF el_def] float by (simp add: stepHeightLayer_def)
  from pos have nz: "nCellCritical f \<noteq> 0"
    by simp
  have "outputAt f mapIn n = Inr (costSpec f ?sh (secondWindow f mapIn n))"
    using outputAt_eq [OF el' neq nz, of n] n by (simp add: costLayer_def)
  also have "costSpec f ?sh (secondWindow f mapIn n) =
      Some (traversability f (dampedStep f 1 \<bar>h\<bar>))"
    by (rule constant_costSpec [OF all near self abs crit(2) pos])
  also have "traversability f (dampedStep f 1 \<bar>h\<bar>) = (if nCellCritical f = 1 then 0 else 1)"
  proof (cases "nCellCritical f = 1")
    case True
    with crit show ?thesis
      by (simp add: traversability_def dampedStep_def)
  next
    case False
    with pos have "1 sdiv nCellCritical f = 0"
      by (intro sdiv_small) simp_all
    with False crit abs show ?thesis
      by (simp add: traversability_def dampedStep_def)
  qed
  finally have "outputAt f mapIn n = Inr (Some (if nCellCritical f = 1 then 0 else 1))" .
  with p1 sh self show ?thesis
    by blast
qed

theorem spike_neighbour_output_witness:
  "layerData (rowMap spike) ''elevation'' = Some (\<lambda>c. if c = (0, 1) then Some 1 else Some 0) \<and>
   (0, 0) \<in> set (firstWindow (rowFilter 1 ''traversability_step'') (rowMap spike) (0, 1)) \<and>
   (0, 1) \<in> set (secondWindow (rowFilter 1 ''traversability_step'') (rowMap spike) (0, 2)) \<and>
   criticalValue (rowFilter 1 ''traversability_step'') < \<bar>1\<bar> \<and>
   toFloat \<bar>1\<bar> = Some \<bar>1\<bar> \<and>
   outputAt (rowFilter 1 ''traversability_step'') (rowMap spike) (0, 2) = Inr (Some 0)"
proof -
  let ?f = "rowFilter 1 ''traversability_step''"
  have el: "layerData (rowMap spike) ''elevation'' =
      Some (\<lambda>c. if c = (0, 1) then Some 1 else Some 0)"
    by (simp add: rowMap_def spike_def)
  have ty: "mapType ?f \<noteq> ''elevation''" and neq: "mapType ?f \<noteq> ''step_height''"
    and pos: "0 < nCellCritical ?f"
    and crit: "0 < criticalValue ?f" "criticalValue ?f < \<bar>1\<bar>"
    by (simp_all add: rowFilter_def)
  have s: "(0, 1) \<in> set (cells (rowMap spike))" and n: "(0, 2) \<in> set (cells (rowMap spike))"
    and cover: "(0, 0) \<in> set (firstWindow ?f (rowMap spike) (0, 1))" "(0, 0) \<noteq> ((0, 1) :: index)"
    and near: "(0, 1) \<in> set (secondWindow ?f (rowMap spike) (0, 2))"
    by (simp_all add: row_defs)
  have one: "nCellCritical ?f = 1"
    by (simp add: rowFilter_def)
  have float: "toFloat \<bar>1\<bar> = Some \<bar>1\<bar>"
    by (simp add: toFloat_1)
  from spike_neighbour_output [OF el ty neq s n cover near crit pos float]
  have "outputAt ?f (rowMap spike) (0, 2) = Inr (Some (if nCellCritical ?f = 1 then 0 else 1))"
    by blast
  then have "outputAt ?f (rowMap spike) (0, 2) = Inr (Some 0)"
    unfolding one by simp
  with el cover(1) near crit(2) float show ?thesis
    by simp
qed

text \<open>
  C9 as stated fails: \<open>configure\<close> accepts the critical cell number 5, and with it the
  neighbour \<open>(0, 0)\<close> of the spike of the example row, whose height 1 is above the critical
  value 3/10, gets the output 1.
\<close>

theorem spike_neighbour_counterexample:
  "configure (goodParams(''critical_cell_number'' \<mapsto> ParamInt 5)) StepFilter =
     (True, rowFilter 5 ''traversability_step'') \<and>
   spike (0, 1) = Some 1 \<and> spike (0, 0) = Some 0 \<and> spike (0, 2) = Some 0 \<and> spike (0, 3) = Some 0 \<and>
   (0, 1) \<in> set (secondWindow (rowFilter 5 ''traversability_step'') (rowMap spike) (0, 0)) \<and>
   outputAt (rowFilter 5 ''traversability_step'') (rowMap spike) (0, 0) = Inr (Some 1)"
proof -
  let ?f = "rowFilter 5 ''traversability_step''"
  let ?sh = "\<lambda>c::index. if c \<in> {(0, 0), (0, 1), (0, 2)} then Some (1::real) else None"
  have el': "layerData (addLayers ?f (rowMap spike)) ''elevation'' = Some spike"
    by (simp add: addLayers_simps rowMap_def rowFilter_def)
  have neq: "mapType ?f \<noteq> ''step_height''" and nz: "nCellCritical ?f \<noteq> 0"
    by (simp_all add: rowFilter_def)
  have "outputAt ?f (rowMap spike) (0, 0) = Inr (costLayer ?f (rowMap spike) ?sh (0, 0))"
    using outputAt_eq [OF el' neq nz] by (simp add: stepHeightLayer_spike)
  also have "costLayer ?f (rowMap spike) ?sh (0, 0) = Some 1"
    by (simp add: row_defs closed_form_defs)
  finally have "outputAt ?f (rowMap spike) (0, 0) = Inr (Some 1)" .
  moreover have "configure (goodParams(''critical_cell_number'' \<mapsto> ParamInt 5)) StepFilter =
     (True, ?f)"
    by (simp add: configure_def goodParams_def getParam_defs StepFilter_def rowFilter_def)
  moreover have "(0, 1) \<in> set (secondWindow ?f (rowMap spike) (0, 0))"
    by (simp add: row_defs)
  ultimately show ?thesis
    by (simp add: spike_def)
qed

end
